theory Spec2Isabelle
  imports Main "HOL-Library.Sublist" "HOL-Library.Char_ord" "HOL-Library.List_Lexorder"
begin

section \<open>Text, characters and the regular expressions of the two resolvers\<close>

text \<open>
  The two tools \<^verbatim>\<open>tools/worktree/resolve_cargo_conflict.py\<close> and
  \<^verbatim>\<open>tools/worktree/resolve_librs_conflict.py\<close> work on Python \<^verbatim>\<open>str\<close> values.
  A text is a \<^typ>\<open>string\<close>; a \<^typ>\<open>char\<close> stands for a code point below 256, which
  covers every character the patterns of the tools name.
\<close>

abbreviation NL :: char where "NL \<equiv> CHR 0x0A"
abbreviation DQ :: char where "DQ \<equiv> CHR 0x22"

text \<open>Python's \<^verbatim>\<open>\s\<close> (and \<^verbatim>\<open>str.isspace\<close>, used by \<^verbatim>\<open>str.strip\<close>) below code point 256.\<close>

definition is_space :: "char \<Rightarrow> bool" where
  "is_space c = (c \<in> set [CHR 0x09, CHR 0x0A, CHR 0x0B, CHR 0x0C, CHR 0x0D, CHR 0x1C,
                            CHR 0x1D, CHR 0x1E, CHR 0x1F, CHR 0x20, CHR 0x85, CHR 0xA0])"

text \<open>Python's \<^verbatim>\<open>\w\<close> below code point 256: alphanumerics and the underscore.\<close>

definition is_word :: "char \<Rightarrow> bool" where
  "is_word c = (let n = (of_char c :: nat) in
       (48 \<le> n \<and> n \<le> 57) \<or> (65 \<le> n \<and> n \<le> 90) \<or> n = 95 \<or> (97 \<le> n \<and> n \<le> 122)
     \<or> n = 170 \<or> n = 178 \<or> n = 179 \<or> n = 181 \<or> n = 185 \<or> n = 186
     \<or> (188 \<le> n \<and> n \<le> 190) \<or> (192 \<le> n \<and> n \<le> 214) \<or> (216 \<le> n \<and> n \<le> 246)
     \<or> (248 \<le> n \<and> n \<le> 255))"

definition any_char :: "char \<Rightarrow> bool" where
  "any_char c = True"

definition not_char :: "char \<Rightarrow> char \<Rightarrow> bool" where
  "not_char x c = (c \<noteq> x)"

definition is_char :: "char \<Rightarrow> char \<Rightarrow> bool" where
  "is_char x c = (c = x)"

subsection \<open>Python string operations\<close>

text \<open>\<^verbatim>\<open>p in s\<close> for strings.\<close>

primrec contains :: "string \<Rightarrow> string \<Rightarrow> bool" where
  "contains p [] = (p = [])"
| "contains p (c # s) = (prefix p (c # s) \<or> contains p s)"

text \<open>\<^verbatim>\<open>s.split('\n')\<close>: never empty, one more piece than there are newlines.\<close>

fun split_nl :: "string \<Rightarrow> string list" where
  "split_nl [] = [[]]"
| "split_nl (c # s) =
     (if c = NL then [] # split_nl s
      else (case split_nl s of [] \<Rightarrow> [[c]] | l # ls \<Rightarrow> (c # l) # ls))"

text \<open>\<^verbatim>\<open>'\n'.join(ls)\<close>.\<close>

fun join_nl :: "string list \<Rightarrow> string" where
  "join_nl [] = []"
| "join_nl [l] = l"
| "join_nl (l # ls) = l @ NL # join_nl ls"

text \<open>\<^verbatim>\<open>sep.join(ls)\<close> for any separator.\<close>

fun join_with :: "string \<Rightarrow> string list \<Rightarrow> string" where
  "join_with sep [] = []"
| "join_with sep [l] = l"
| "join_with sep (l # ls) = l @ sep @ join_with sep ls"

text \<open>\<^verbatim>\<open>s.strip()\<close>.\<close>

definition strip :: "string \<Rightarrow> string" where
  "strip s = rev (dropWhile is_space (rev (dropWhile is_space s)))"

text \<open>\<^verbatim>\<open>s.endswith('\n')\<close>.\<close>

definition ends_nl :: "string \<Rightarrow> bool" where
  "ends_nl s = (s \<noteq> [] \<and> last s = NL)"

text \<open>\<^verbatim>\<open>l.insert(i, x)\<close> for \<^verbatim>\<open>i \<ge> 0\<close>: past the end it appends.\<close>

definition py_insert :: "nat \<Rightarrow> 'a \<Rightarrow> 'a list \<Rightarrow> 'a list" where
  "py_insert i x xs = take i xs @ x # drop i xs"

text \<open>\<^verbatim>\<open>str(n)\<close> for a length.\<close>

definition digit_char :: "nat \<Rightarrow> char" where
  "digit_char d = char_of (48 + d)"

fun str_nat :: "nat \<Rightarrow> string" where
  "str_nat n = (if n < 10 then [digit_char n] else str_nat (n div 10) @ [digit_char (n mod 10)])"

declare str_nat.simps [simp del]

subsection \<open>A backtracking matcher for the fragment of \<^verbatim>\<open>re\<close> the tools use\<close>

text \<open>
  The constructors are the pattern forms that occur in the two files. Repetition is
  always over a single character class, greedy (\<^verbatim>\<open>*\<close>, \<^verbatim>\<open>+\<close>) or lazy (\<^verbatim>\<open>*?\<close>);
  \<^verbatim>\<open>.\<close> under \<^verbatim>\<open>re.DOTALL\<close> is the class of all characters. \<open>Opt\<close> is the greedy
  \<^verbatim>\<open>(?:r)?\<close> and \<open>Grp n\<close> the n-th capture group.
\<close>

datatype rx =
    Lit string
  | Star "char \<Rightarrow> bool"
  | Plus "char \<Rightarrow> bool"
  | Lazy "char \<Rightarrow> bool"
  | Seq rx rx
  | Opt rx
  | Grp nat rx

type_synonym caps = "(nat \<times> string) list"

text \<open>Remove a literal from the front of the text.\<close>

fun strip_prefix :: "string \<Rightarrow> string \<Rightarrow> string option" where
  "strip_prefix [] s = Some s"
| "strip_prefix (p # ps) [] = None"
| "strip_prefix (p # ps) (c # s) = (if p = c then strip_prefix ps s else None)"

text \<open>
  The matcher is written with a continuation \<open>k\<close> for the rest of the pattern, so that
  the order in which alternatives are tried is the order of Python's backtracking
  engine: a greedy repetition tries the longest run first, a lazy one the shortest.
\<close>

fun star_greedy :: "(char \<Rightarrow> bool) \<Rightarrow> caps \<Rightarrow> string \<Rightarrow> (caps \<Rightarrow> string \<Rightarrow> 'r option) \<Rightarrow> 'r option" where
  "star_greedy P cs [] k = k cs []"
| "star_greedy P cs (c # s) k =
     (if P c then (case star_greedy P cs s k of Some r \<Rightarrow> Some r | None \<Rightarrow> k cs (c # s))
      else k cs (c # s))"

fun star_lazy :: "(char \<Rightarrow> bool) \<Rightarrow> caps \<Rightarrow> string \<Rightarrow> (caps \<Rightarrow> string \<Rightarrow> 'r option) \<Rightarrow> 'r option" where
  "star_lazy P cs [] k = k cs []"
| "star_lazy P cs (c # s) k =
     (case k cs (c # s) of Some r \<Rightarrow> Some r
      | None \<Rightarrow> if P c then star_lazy P cs s k else None)"

fun rx_match :: "rx \<Rightarrow> caps \<Rightarrow> string \<Rightarrow> (caps \<Rightarrow> string \<Rightarrow> 'r option) \<Rightarrow> 'r option" where
  "rx_match (Lit l) cs s k = (case strip_prefix l s of Some s' \<Rightarrow> k cs s' | None \<Rightarrow> None)"
| "rx_match (Star P) cs s k = star_greedy P cs s k"
| "rx_match (Plus P) cs s k =
     (case s of [] \<Rightarrow> None | c # s' \<Rightarrow> if P c then star_greedy P cs s' k else None)"
| "rx_match (Lazy P) cs s k = star_lazy P cs s k"
| "rx_match (Seq a b) cs s k = rx_match a cs s (\<lambda>cs' s'. rx_match b cs' s' k)"
| "rx_match (Opt a) cs s k =
     (case rx_match a cs s k of Some r \<Rightarrow> Some r | None \<Rightarrow> k cs s)"
| "rx_match (Grp n a) cs s k =
     rx_match a cs s (\<lambda>cs' s'. k ((n, take (length s - length s') s) # cs') s')"

text \<open>
  \<^verbatim>\<open>re.match\<close>: the groups and the text after the match, at the start of \<open>s\<close>.
  Group 0 is the whole match.
\<close>

definition match_at :: "rx \<Rightarrow> string \<Rightarrow> (caps \<times> string) option" where
  "match_at p s = rx_match (Grp 0 p) [] s (\<lambda>cs r. Some (cs, r))"

text \<open>\<^verbatim>\<open>m.group(n) or ""\<close>; a group that took no part in the match is \<^verbatim>\<open>None\<close>.\<close>

definition grp :: "nat \<Rightarrow> caps \<Rightarrow> string" where
  "grp n cs = (case map_of cs n of Some t \<Rightarrow> t | None \<Rightarrow> [])"

text \<open>\<^verbatim>\<open>re.search\<close>: the leftmost match; returns the text before it, the groups, the text after.\<close>

fun rx_search :: "rx \<Rightarrow> string \<Rightarrow> (string \<times> caps \<times> string) option" where
  "rx_search p [] = (case match_at p [] of Some (cs, r) \<Rightarrow> Some ([], cs, r) | None \<Rightarrow> None)"
| "rx_search p (c # s) =
     (case match_at p (c # s) of Some (cs, r) \<Rightarrow> Some ([], cs, r)
      | None \<Rightarrow> (case rx_search p s of Some (pre, cs, r) \<Rightarrow> Some (c # pre, cs, r) | None \<Rightarrow> None))"

text \<open>
  \<^verbatim>\<open>re.finditer\<close> and \<^verbatim>\<open>re.sub\<close> scan from left to right and go on after the end of each
  match. Every pattern the tools pass to them begins with a literal, so no match is
  empty; the branch for an empty match (step over one character) only makes the
  functions total.
\<close>

function rx_finditer :: "rx \<Rightarrow> string \<Rightarrow> caps list" where
  "rx_finditer p s =
     (case match_at p s of
        Some (cs, r) \<Rightarrow>
          (if length r < length s then cs # rx_finditer p r
           else cs # (case s of [] \<Rightarrow> [] | c # s' \<Rightarrow> rx_finditer p s'))
      | None \<Rightarrow> (case s of [] \<Rightarrow> [] | c # s' \<Rightarrow> rx_finditer p s'))"
  by pat_completeness auto
termination
  by (relation "measure (\<lambda>(p, s). length s)") auto

function rx_sub :: "rx \<Rightarrow> (caps \<Rightarrow> string) \<Rightarrow> string \<Rightarrow> string" where
  "rx_sub p repl s =
     (case match_at p s of
        Some (cs, r) \<Rightarrow>
          (if length r < length s then repl cs @ rx_sub p repl r
           else repl cs @ (case s of [] \<Rightarrow> [] | c # s' \<Rightarrow> c # rx_sub p repl s'))
      | None \<Rightarrow> (case s of [] \<Rightarrow> [] | c # s' \<Rightarrow> c # rx_sub p repl s'))"
  by pat_completeness auto
termination
  by (relation "measure (\<lambda>(p, repl, s). length s)") auto

declare rx_finditer.simps [simp del] rx_sub.simps [simp del]

text \<open>A sequence of patterns, written as a list.\<close>

fun seqs :: "rx list \<Rightarrow> rx" where
  "seqs [] = Lit []"
| "seqs [r] = r"
| "seqs (r # rs) = Seq r (seqs rs)"

subsection \<open>Replacement templates of \<^verbatim>\<open>re.sub\<close>\<close>

text \<open>
  When the replacement passed to \<^verbatim>\<open>re.sub\<close> is a string, the library reads it as a
  template before it searches (\<^verbatim>\<open>re._parser.parse_template\<close>): a backslash starts an
  escape, a group reference or an octal code, and an escape it does not know raises
  \<^verbatim>\<open>re.error\<close>. The Cargo tool passes the merged block as such a string, so the text of
  the members goes through this function. \<open>g\<close> is the number of groups of the pattern.
  In a \<^verbatim>\<open>\g<name>\<close> reference a name that is an identifier is looked up among the
  named groups, of which the patterns of the tools have none, so it raises; any other
  name goes through \<^verbatim>\<open>int(name)\<close> (Python 3.11: blanks around the number, a sign and
  single underscores between digits are accepted, at most 4300 digits; a negative number
  raises). The one error value stands for the exception raised, \<^verbatim>\<open>re.error\<close> or
  \<^verbatim>\<open>IndexError\<close>; the tools catch both alike.
\<close>

datatype error = ReError

datatype piece = PLit string | PGrp nat

abbreviation BS :: char where "BS \<equiv> CHR 0x5C"

definition is_digit :: "char \<Rightarrow> bool" where
  "is_digit c = (48 \<le> (of_char c :: nat) \<and> (of_char c :: nat) \<le> 57)"

definition is_octdigit :: "char \<Rightarrow> bool" where
  "is_octdigit c = (48 \<le> (of_char c :: nat) \<and> (of_char c :: nat) \<le> 55)"

definition is_ascii_letter :: "char \<Rightarrow> bool" where
  "is_ascii_letter c = (let n = (of_char c :: nat) in (65 \<le> n \<and> n \<le> 90) \<or> (97 \<le> n \<and> n \<le> 122))"

definition digit_val :: "char \<Rightarrow> nat" where
  "digit_val c = of_char c - 48"

definition int_of_digits :: "string \<Rightarrow> nat" where
  "int_of_digits ds = foldl (\<lambda>a d. 10 * a + digit_val d) 0 ds"

text \<open>
  \<^verbatim>\<open>int(name)\<close> for a group name, \<open>None\<close> where it raises \<^verbatim>\<open>ValueError\<close> or the number
  is negative. The blanks that \<^verbatim>\<open>int\<close> skips are fewer than those of \<^verbatim>\<open>str.isspace\<close>.
\<close>

definition is_int_space :: "char \<Rightarrow> bool" where
  "is_int_space c = (c \<in> set [CHR 0x09, CHR 0x0A, CHR 0x0B, CHR 0x0C, CHR 0x0D, CHR 0x20,
                                CHR 0x85, CHR 0xA0])"

fun dig_run :: "string \<Rightarrow> bool" where
  "dig_run [] = False"
| "dig_run [c] = is_digit c"
| "dig_run (c # d # t) = (is_digit c \<and> (if d = CHR ''_'' then dig_run t else dig_run (d # t)))"

definition int_name :: "string \<Rightarrow> nat option" where
  "int_name name =
     (let s = rev (dropWhile is_int_space (rev (dropWhile is_int_space name)));
          neg = (s \<noteq> [] \<and> hd s = CHR ''-'');
          d = (if s \<noteq> [] \<and> (hd s = CHR ''+'' \<or> hd s = CHR ''-'') then tl s else s);
          ds = filter is_digit d
      in if dig_run d \<and> length ds \<le> 4300 \<and> (neg \<longrightarrow> int_of_digits ds = 0)
         then Some (int_of_digits ds) else None)"

definition addgroup :: "nat \<Rightarrow> nat \<Rightarrow> nat \<Rightarrow> error + (piece \<times> nat)" where
  "addgroup g index used = (if index > g then Inl ReError else Inr (PGrp index, used))"

text \<open>
  One escape: \<open>s\<close> is the text after the backslash; the result is the piece and the
  number of characters of \<open>s\<close> it used.
\<close>

definition escape :: "nat \<Rightarrow> string \<Rightarrow> error + (piece \<times> nat)" where
  "escape g s =
     (case s of
        [] \<Rightarrow> Inl ReError
      | c # t \<Rightarrow>
          if c = CHR ''g'' then
            (case t of
               [] \<Rightarrow> Inl ReError
             | l # u \<Rightarrow>
                 if l \<noteq> CHR ''<'' then Inl ReError
                 else let name = takeWhile (\<lambda>x. x \<noteq> CHR ''>'') u in
                   if length name = length u then Inl ReError
                   else if name = [] then Inl ReError
                   else (case int_name name of
                           Some index \<Rightarrow> addgroup g index (length name + 3)
                         | None \<Rightarrow> Inl ReError))
          else if c = CHR ''0'' then
            (case t of
               [] \<Rightarrow> Inr (PLit [char_of (0::nat)], 1)
             | d1 # t1 \<Rightarrow>
                 if is_octdigit d1 then
                   (case t1 of
                      [] \<Rightarrow> Inr (PLit [char_of (digit_val d1)], 2)
                    | d2 # t2 \<Rightarrow>
                        if is_octdigit d2
                        then Inr (PLit [char_of ((8 * digit_val d1 + digit_val d2) mod 256)], 3)
                        else Inr (PLit [char_of (digit_val d1)], 2))
                 else Inr (PLit [char_of (0::nat)], 1))
          else if is_digit c then
            (case t of
               [] \<Rightarrow> addgroup g (digit_val c) 1
             | d1 # t1 \<Rightarrow>
                 if is_digit d1 then
                   (if is_octdigit c \<and> is_octdigit d1 \<and> t1 \<noteq> [] \<and> is_octdigit (hd t1)
                    then (let v = 64 * digit_val c + 8 * digit_val d1 + digit_val (hd t1) in
                          if v > 255 then Inl ReError else Inr (PLit [char_of v], 3))
                    else addgroup g (10 * digit_val c + digit_val d1) 2)
                 else addgroup g (digit_val c) 1)
          else if c = CHR ''a'' then Inr (PLit [CHR 0x07], 1)
          else if c = CHR ''b'' then Inr (PLit [CHR 0x08], 1)
          else if c = CHR ''f'' then Inr (PLit [CHR 0x0C], 1)
          else if c = CHR ''n'' then Inr (PLit [CHR 0x0A], 1)
          else if c = CHR ''r'' then Inr (PLit [CHR 0x0D], 1)
          else if c = CHR ''t'' then Inr (PLit [CHR 0x09], 1)
          else if c = CHR ''v'' then Inr (PLit [CHR 0x0B], 1)
          else if c = BS then Inr (PLit [BS], 1)
          else if is_ascii_letter c then Inl ReError
          else Inr (PLit [BS, c], 1))"

function parse_template :: "nat \<Rightarrow> string \<Rightarrow> error + piece list" where
  "parse_template g [] = Inr []"
| "parse_template g (c # s) =
     (if c = BS then
        (case escape g s of
           Inl e \<Rightarrow> Inl e
         | Inr (p, used) \<Rightarrow>
             (case parse_template g (drop used s) of Inl e \<Rightarrow> Inl e | Inr ps \<Rightarrow> Inr (p # ps)))
      else (case parse_template g s of Inl e \<Rightarrow> Inl e | Inr ps \<Rightarrow> Inr (PLit [c] # ps)))"
  by pat_completeness auto
termination
  by (relation "measure (\<lambda>(g, s). length s)") auto

text \<open>Filling a parsed template with the groups of one match.\<close>

fun expand :: "piece list \<Rightarrow> caps \<Rightarrow> string" where
  "expand [] cs = []"
| "expand (PLit t # ps) cs = t @ expand ps cs"
| "expand (PGrp n # ps) cs = grp n cs @ expand ps cs"

text \<open>\<^verbatim>\<open>re.sub(pattern, repl, s)\<close> with a string \<open>repl\<close>; the template is read first.\<close>

definition rx_sub_template :: "rx \<Rightarrow> nat \<Rightarrow> string \<Rightarrow> string \<Rightarrow> error + string" where
  "rx_sub_template p g repl s =
     (case parse_template g repl of
        Inl e \<Rightarrow> Inl e
      | Inr ps \<Rightarrow> Inr (rx_sub p (expand ps) s))"

subsection \<open>Files and console\<close>

text \<open>
  The tools read one file, write it back, and print to the two console streams. Reading
  is modelled for a path that holds a text; what \<^verbatim>\<open>read_text\<close> raises on a directory
  or on undecodable bytes is outside the model.
\<close>

record world =
  files :: "string \<Rightarrow> string option"
  out :: "string list"
  err :: "string list"

definition print_out :: "string \<Rightarrow> world \<Rightarrow> world" where
  "print_out l w = w\<lparr>out := out w @ [l]\<rparr>"

definition print_err :: "string \<Rightarrow> world \<Rightarrow> world" where
  "print_err l w = w\<lparr>err := err w @ [l]\<rparr>"

definition write_text :: "string \<Rightarrow> string \<Rightarrow> world \<Rightarrow> world" where
  "write_text path t w = w\<lparr>files := (files w)(path \<mapsto> t)\<rparr>"

text \<open>\<^verbatim>\<open>re.sub(r'\n{3,}', '\n\n', resolved)\<close>, the last step of both tools.\<close>

definition blank_rx :: rx where
  "blank_rx = seqs [Lit [NL, NL, NL], Star (is_char NL)]"

definition collapse_blank :: "string \<Rightarrow> string" where
  "collapse_blank s = rx_sub blank_rx (\<lambda>cs. [NL, NL]) s"

section \<open>The declaration tool: \<^verbatim>\<open>resolve_librs_conflict.py\<close>\<close>

text \<open>\<^verbatim>\<open>^(pub(?:\([^)]+\))?\s+mod\s+\w+\s*;)\<close>, the pattern of \<^verbatim>\<open>extract_pub_mods\<close>.\<close>

definition pub_mod_rx :: rx where
  "pub_mod_rx =
     Grp 1 (seqs [Lit ''pub'',
                  Opt (seqs [Lit ''('', Plus (not_char (CHR '')'')), Lit '')'']),
                  Plus is_space, Lit ''mod'', Plus is_space, Plus is_word,
                  Star is_space, Lit '';''])"

text \<open>\<^verbatim>\<open>^pub(?:\([^)]+\))?\s+mod\s+\w+\s*;\<close>, the test of the main loop on a line outside a conflict.\<close>

definition pub_mod_line_rx :: rx where
  "pub_mod_line_rx =
     seqs [Lit ''pub'',
           Opt (seqs [Lit ''('', Plus (not_char (CHR '')'')), Lit '')'']),
           Plus is_space, Lit ''mod'', Plus is_space, Plus is_word,
           Star is_space, Lit '';'']"

text \<open>\<^verbatim>\<open>mod\s+(\w+)\<close>, the pattern of \<^verbatim>\<open>extract_mod_name\<close>.\<close>

definition mod_name_rx :: rx where
  "mod_name_rx = seqs [Lit ''mod'', Plus is_space, Grp 1 (Plus is_word)]"

text \<open>
  The tool keeps the declarations in a Python \<^verbatim>\<open>set\<close>. The model keeps a list without
  duplicates, in the order of first insertion; \<^verbatim>\<open>sorted\<close> is stable, so among
  declarations with the same module name the model's order is that of insertion, where
  Python's is that of the set's iteration.
\<close>

definition set_add :: "'a \<Rightarrow> 'a list \<Rightarrow> 'a list" where
  "set_add x xs = (if x \<in> set xs then xs else xs @ [x])"

definition set_update :: "'a list \<Rightarrow> 'a list \<Rightarrow> 'a list" where
  "set_update xs ys = foldl (\<lambda>a y. set_add y a) xs ys"

definition extract_pub_mods :: "string \<Rightarrow> string list" where
  "extract_pub_mods block =
     foldl (\<lambda>mods line.
              case match_at pub_mod_rx (strip line) of
                Some (cs, r) \<Rightarrow> set_add (grp 1 cs) mods
              | None \<Rightarrow> mods)
           [] (split_nl block)"

definition extract_mod_name :: "string \<Rightarrow> string" where
  "extract_mod_name declaration =
     (case rx_search mod_name_rx declaration of
        Some (pre, cs, r) \<Rightarrow> grp 1 cs
      | None \<Rightarrow> declaration)"

text \<open>The variables of the main loop (\<^verbatim>\<open>skip_until_end\<close> is never read).\<close>

record scan =
  resolved_lines :: "string list"
  all_pub_mods :: "string list"
  in_conflict :: bool
  conflict_section :: string
  pub_mods_insertion_point :: "nat option"

definition scan_init :: scan where
  "scan_init = \<lparr>resolved_lines = [], all_pub_mods = [], in_conflict = False,
                conflict_section = [], pub_mods_insertion_point = None\<rparr>"

definition mark_insertion :: "scan \<Rightarrow> nat option" where
  "mark_insertion st =
     (case pub_mods_insertion_point st of
        None \<Rightarrow> Some (length (resolved_lines st))
      | Some p \<Rightarrow> Some p)"

text \<open>One iteration of the \<^verbatim>\<open>while\<close> loop; every branch advances \<open>i\<close> by one.\<close>

definition scan_line :: "scan \<Rightarrow> string \<Rightarrow> scan" where
  "scan_line st line =
     (if prefix ''<<<<<<< '' line then
        st\<lparr>in_conflict := True, conflict_section := []\<rparr>
      else if prefix ''======='' line then
        st\<lparr>all_pub_mods := set_update (all_pub_mods st) (extract_pub_mods (conflict_section st)),
           conflict_section := []\<rparr>
      else if prefix ''>>>>>>> '' line then
        st\<lparr>all_pub_mods := set_update (all_pub_mods st) (extract_pub_mods (conflict_section st)),
           in_conflict := False,
           conflict_section := [],
           pub_mods_insertion_point := mark_insertion st\<rparr>
      else if in_conflict st then
        st\<lparr>conflict_section := conflict_section st @ line @ [NL]\<rparr>
      else
        (let stripped = strip line in
         if match_at pub_mod_line_rx stripped \<noteq> None then
           st\<lparr>all_pub_mods := set_add stripped (all_pub_mods st),
              pub_mods_insertion_point := mark_insertion st\<rparr>
         else st\<lparr>resolved_lines := resolved_lines st @ [line]\<rparr>))"

definition scan_lines :: "string list \<Rightarrow> scan" where
  "scan_lines ls = foldl scan_line scan_init ls"

text \<open>\<^verbatim>\<open>for j, mod_decl in enumerate(sorted_mods): resolved_lines.insert(insert_at + j, mod_decl)\<close>\<close>

fun insert_all :: "nat \<Rightarrow> string list \<Rightarrow> string list \<Rightarrow> string list" where
  "insert_all at [] ls = ls"
| "insert_all at (m # ms) ls = insert_all (Suc at) ms (py_insert at m ls)"

text \<open>
  The search for a place after the \<^verbatim>\<open>use\<close> lines, taken when no insertion point was
  marked: \<open>idx\<close> is the index of the line looked at, \<open>ins\<close> the value of \<^verbatim>\<open>insert_at\<close>.
\<close>

fun find_insert_at :: "nat \<Rightarrow> nat \<Rightarrow> string list \<Rightarrow> nat" where
  "find_insert_at idx ins [] = ins"
| "find_insert_at idx ins (l # ls) =
     (if prefix ''use '' (strip l) then find_insert_at (Suc idx) (Suc idx) ls
      else if strip l \<noteq> [] \<and> \<not> prefix ''//'' (strip l) \<and> \<not> prefix ''#'' (strip l) then ins
      else find_insert_at (Suc idx) ins ls)"

definition sorted_mods_of :: "scan \<Rightarrow> string list" where
  "sorted_mods_of st = sort_key extract_mod_name (all_pub_mods st)"

definition place_mods :: "scan \<Rightarrow> string list" where
  "place_mods st =
     (let sorted_mods = sorted_mods_of st in
      if sorted_mods \<noteq> [] \<and> pub_mods_insertion_point st \<noteq> None then
        insert_all (the (pub_mods_insertion_point st)) sorted_mods (resolved_lines st)
      else if sorted_mods \<noteq> [] then
        insert_all (find_insert_at 0 0 (resolved_lines st)) sorted_mods (resolved_lines st)
      else resolved_lines st)"

text \<open>The text the tool writes for a content that has a start marker.\<close>

definition librs_resolved :: "string \<Rightarrow> string" where
  "librs_resolved content =
     (let resolved = collapse_blank (join_nl (place_mods (scan_lines (split_nl content))))
      in if \<not> ends_nl resolved then resolved @ [NL] else resolved)"

definition librs_report :: "string \<Rightarrow> string list \<Rightarrow> string list" where
  "librs_report file_path sorted_mods =
     (''Resolved '' @ file_path) #
     (if sorted_mods \<noteq> [] then
        (''  Merged '' @ str_nat (length sorted_mods) @ '' pub mod declarations:'') #
        map (\<lambda>m. ''    - '' @ extract_mod_name m) sorted_mods
      else [])"

definition resolve_librs_conflict :: "string \<Rightarrow> world \<Rightarrow> bool \<times> world" where
  "resolve_librs_conflict file_path w =
     (case files w file_path of
        None \<Rightarrow> (False, print_err (''Error: File not found: '' @ file_path) w)
      | Some content \<Rightarrow>
          if \<not> contains ''<<<<<<< '' content then
            (True, print_out (''No conflict markers found in '' @ file_path) w)
          else
            (let w1 = write_text file_path (librs_resolved content) w;
                 w2 = fold print_out
                        (librs_report file_path (sorted_mods_of (scan_lines (split_nl content)))) w1
             in (True, w2)))"

text \<open>
  \<^verbatim>\<open>main\<close>: the argument is the optional positional path. The result is the exit
  code of the process and the world it leaves.
\<close>

definition librs_parse_args :: "string option \<Rightarrow> string" where
  "librs_parse_args arg = (case arg of None \<Rightarrow> ''src/lib.rs'' | Some p \<Rightarrow> p)"

definition librs_main :: "string option \<Rightarrow> world \<Rightarrow> nat \<times> world" where
  "librs_main arg w =
     (case resolve_librs_conflict (librs_parse_args arg) w of
        (success, w') \<Rightarrow> (if success then 0 else 1, w'))"

section \<open>The manifest tool: \<^verbatim>\<open>resolve_cargo_conflict.py\<close>\<close>

text \<open>\<^verbatim>\<open>members\s*=\s*\[(.*?)\]\<close> with \<^verbatim>\<open>re.DOTALL\<close>.\<close>

definition members_rx :: rx where
  "members_rx =
     seqs [Lit ''members'', Star is_space, Lit ''='', Star is_space, Lit ''['',
           Grp 1 (Lazy any_char), Lit '']'']"

text \<open>\<^verbatim>\<open>"([^"]+)"\<close>\<close>

definition quoted_rx :: rx where
  "quoted_rx = seqs [Lit [DQ], Grp 1 (Plus (not_char DQ)), Lit [DQ]]"

text \<open>
  \<^verbatim>\<open>extract_members_from_block\<close>: \<^verbatim>\<open>re.search\<close> gives the leftmost literal of the
  block, \<^verbatim>\<open>re.finditer\<close> every quoted string inside it.
\<close>

definition extract_members_from_block :: "string \<Rightarrow> string set" where
  "extract_members_from_block block =
     (case rx_search members_rx block of
        Some (pre, cs, r) \<Rightarrow> set (map (grp 1) (rx_finditer quoted_rx (grp 1 cs)))
      | None \<Rightarrow> {})"

text \<open>\<^verbatim>\<open><<<<<<<[^\n]*\n(.*?)(?:=======\n(.*?))?>>>>>>>[^\n]*\n?\<close> with \<^verbatim>\<open>re.DOTALL\<close>.\<close>

definition conflict_pattern :: rx where
  "conflict_pattern =
     seqs [Lit ''<<<<<<<'', Star (not_char NL), Lit [NL],
           Grp 1 (Lazy any_char),
           Opt (seqs [Lit (''======='' @ [NL]), Grp 2 (Lazy any_char)]),
           Lit ''>>>>>>>'', Star (not_char NL), Opt (Lit [NL])]"

text \<open>
  The pattern of the first removal pass, with \<^verbatim>\<open>re.DOTALL\<close>:
  \<^verbatim>\<open><<<<<<<[^\n]*\n(?:.*?members\s*=\s*\[.*?\].*?)?=======\n(?:.*?members\s*=\s*\[.*?\].*?)?>>>>>>>[^\n]*\n?\<close>
\<close>

definition members_side :: rx where
  "members_side =
     Opt (seqs [Lazy any_char, Lit ''members'', Star is_space, Lit ''='', Star is_space,
                Lit ''['', Lazy any_char, Lit '']'', Lazy any_char])"

definition members_conflict_pattern :: rx where
  "members_conflict_pattern =
     seqs [Lit ''<<<<<<<'', Star (not_char NL), Lit [NL],
           members_side,
           Lit (''======='' @ [NL]),
           members_side,
           Lit ''>>>>>>>'', Star (not_char NL), Opt (Lit [NL])]"

text \<open>\<^verbatim>\<open><<<<<<<[^\n]*\n(.*?)=======\n.*?>>>>>>>[^\n]*\n?\<close> with \<^verbatim>\<open>re.DOTALL\<close>, the second pass.\<close>

definition generic_conflict_pattern :: rx where
  "generic_conflict_pattern =
     seqs [Lit ''<<<<<<<'', Star (not_char NL), Lit [NL],
           Grp 1 (Lazy any_char),
           Lit (''======='' @ [NL]),
           Lazy any_char,
           Lit ''>>>>>>>'', Star (not_char NL), Opt (Lit [NL])]"

text \<open>\<^verbatim>\<open>members\s*=\s*\[\<close> and \<^verbatim>\<open>members\s*=\s*\[.*?\]\<close> (with \<^verbatim>\<open>re.DOTALL\<close>).\<close>

definition members_head_rx :: rx where
  "members_head_rx = seqs [Lit ''members'', Star is_space, Lit ''='', Star is_space, Lit ''['']"

definition members_literal_rx :: rx where
  "members_literal_rx =
     seqs [Lit ''members'', Star is_space, Lit ''='', Star is_space, Lit ''['',
           Lazy any_char, Lit '']'']"

text \<open>\<^verbatim>\<open>(\[workspace\])\<close>\<close>

definition workspace_rx :: rx where
  "workspace_rx = Grp 1 (Lit ''[workspace]'')"

text \<open>The members of both sides of every match of \<^verbatim>\<open>conflict_pattern\<close>.\<close>

definition conflict_members :: "string \<Rightarrow> string set" where
  "conflict_members content =
     (\<Union>cs \<in> set (rx_finditer conflict_pattern content).
         extract_members_from_block (grp 1 cs) \<union> extract_members_from_block (grp 2 cs))"

definition clean_content :: "string \<Rightarrow> string" where
  "clean_content content = rx_sub conflict_pattern (\<lambda>cs. []) content"

definition all_members :: "string \<Rightarrow> string set" where
  "all_members content =
     conflict_members content \<union> extract_members_from_block (clean_content content)"

definition sorted_members_of :: "string \<Rightarrow> string list" where
  "sorted_members_of content = sorted_list_of_set (all_members content)"

definition new_members_block :: "string list \<Rightarrow> string" where
  "new_members_block sorted_members =
     (if sorted_members \<noteq> [] then
        ''members = ['' @ [NL] @ ''    '' @
        join_with ('','' @ [NL] @ ''    '') (map (\<lambda>m. [DQ] @ m @ [DQ]) sorted_members) @
        '','' @ [NL] @ '']''
      else ''members = []'')"

text \<open>The two removal passes (lines 115 and 123 of the file).\<close>

definition remove_members_conflicts :: "string \<Rightarrow> string" where
  "remove_members_conflicts content = rx_sub members_conflict_pattern (\<lambda>cs. []) content"

definition resolve_generic_conflicts :: "string \<Rightarrow> string" where
  "resolve_generic_conflicts resolved = rx_sub generic_conflict_pattern (\<lambda>cs. grp 1 cs) resolved"

text \<open>
  Lines 131 to 144: rewrite every members literal, or else add the block after
  \<^verbatim>\<open>[workspace]\<close>. Both replacements are strings, read as templates.
\<close>

definition splice_members :: "string list \<Rightarrow> string \<Rightarrow> error + string" where
  "splice_members sorted_members resolved =
     (if rx_search members_head_rx resolved \<noteq> None then
        rx_sub_template members_literal_rx 0 (new_members_block sorted_members) resolved
      else if contains ''[workspace]'' resolved \<and> sorted_members \<noteq> [] then
        rx_sub_template workspace_rx 1
          ([BS, CHR ''1'', NL] @ new_members_block sorted_members) resolved
      else Inr resolved)"

text \<open>The text the tool writes for a content that has a start marker, or the exception.\<close>

definition cargo_resolved :: "string \<Rightarrow> error + string" where
  "cargo_resolved content =
     (case splice_members (sorted_members_of content)
             (resolve_generic_conflicts (remove_members_conflicts content)) of
        Inl e \<Rightarrow> Inl e
      | Inr resolved \<Rightarrow> Inr (collapse_blank resolved))"

definition cargo_report :: "string \<Rightarrow> string list \<Rightarrow> string list" where
  "cargo_report file_path sorted_members =
     (''Resolved '' @ file_path) #
     (if sorted_members \<noteq> [] then
        (''  Merged '' @ str_nat (length sorted_members) @ '' workspace members:'') #
        map (\<lambda>m. ''    - '' @ m) sorted_members
      else [])"

definition resolve_cargo_conflict :: "string \<Rightarrow> world \<Rightarrow> (error + bool) \<times> world" where
  "resolve_cargo_conflict file_path w =
     (case files w file_path of
        None \<Rightarrow> (Inr False, print_err (''Error: File not found: '' @ file_path) w)
      | Some content \<Rightarrow>
          if \<not> contains ''<<<<<<< '' content then
            (Inr True, print_out (''No conflict markers found in '' @ file_path) w)
          else
            (let w1 = (if all_members content = {}
                       then print_err (''Warning: No workspace members found in '' @ file_path) w
                       else w)
             in case cargo_resolved content of
                  Inl e \<Rightarrow> (Inl e, w1)
                | Inr resolved \<Rightarrow>
                    (Inr True,
                     fold print_out (cargo_report file_path (sorted_members_of content))
                       (write_text file_path resolved w1))))"

text \<open>
  \<^verbatim>\<open>main\<close>: an exception is caught, reported on the error stream and turned into
  exit code 1. The wording of the library's message is not reproduced.
\<close>

definition error_text :: "error \<Rightarrow> string" where
  "error_text e = ''bad replacement template''"

definition cargo_parse_args :: "string option \<Rightarrow> string" where
  "cargo_parse_args arg = (case arg of None \<Rightarrow> ''Cargo.toml'' | Some p \<Rightarrow> p)"

definition cargo_main :: "string option \<Rightarrow> world \<Rightarrow> nat \<times> world" where
  "cargo_main arg w =
     (case resolve_cargo_conflict (cargo_parse_args arg) w of
        (Inr success, w') \<Rightarrow> (if success then 0 else 1, w')
      | (Inl e, w') \<Rightarrow> (1, print_err (''Error: '' @ error_text e) w'))"

section \<open>Auxiliary functions for the statements and proofs\<close>

text \<open>A text given by its lines, each ended by a newline.\<close>

definition lines_text :: "string list \<Rightarrow> string" where
  "lines_text ls = concat (map (\<lambda>l. l @ [NL]) ls)"

text \<open>The head \<^verbatim>\<open>members\s*=\s*\[\<close> read deterministically: the text after it.\<close>

definition members_head :: "string \<Rightarrow> string option" where
  "members_head s =
     (case strip_prefix ''members'' s of
        None \<Rightarrow> None
      | Some r1 \<Rightarrow>
          (case strip_prefix ''='' (dropWhile is_space r1) of
             None \<Rightarrow> None
           | Some r2 \<Rightarrow> strip_prefix ''['' (dropWhile is_space r2)))"

text \<open>
  Blank-line cleanup as a single pass: of a run of newlines the first two are kept.
  \<open>n\<close> counts the newlines already kept of the current run.
\<close>

fun squeeze :: "nat \<Rightarrow> string \<Rightarrow> string" where
  "squeeze n [] = []"
| "squeeze n (c # s) =
     (if c = NL then (if n < 2 then NL # squeeze (Suc n) s else squeeze n s)
      else c # squeeze 0 s)"

text \<open>No run of newlines is longer than two (\<open>n\<close> newlines precede the text).\<close>

fun run_ok :: "nat \<Rightarrow> string \<Rightarrow> bool" where
  "run_ok n [] = True"
| "run_ok n (c # s) = (if c = NL then n < 2 \<and> run_ok (Suc n) s else run_ok 0 s)"

text \<open>
  Conflict-marker lines, by the three prefixes the declaration tool tests a line for.
\<close>

definition marker_line :: "string \<Rightarrow> bool" where
  "marker_line l = (prefix ''<<<<<<< '' l \<or> prefix ''======='' l \<or> prefix ''>>>>>>> '' l)"

text \<open>An example: one conflict between two versions of a function, no list entry in it.\<close>

definition generic_doc :: string where
  "generic_doc = lines_text [''<<<<<<< HEAD'', ''fn a() {}'', ''======='', ''fn b() {}'', ''>>>>>>> other'']"


text \<open>
  Texts with members literals: a list of segments, each a gap followed by a literal
  \<^verbatim>\<open>members<w1>=<w2>[<c>]\<close>, and a tail. A segment is well formed when its gap has no
  \<^verbatim>\<open>members\<close> in it, \<open>w1\<close> and \<open>w2\<close> are whitespace and \<open>c\<close> has no closing bracket.
  \<open>with_block\<close> is the same text with a fixed block in place of every literal.
\<close>

definition members_literal :: "string \<Rightarrow> string \<Rightarrow> string \<Rightarrow> string" where
  "members_literal w1 w2 c = ''members'' @ w1 @ ''='' @ w2 @ ''['' @ c @ '']''"

definition seg_ok :: "string \<times> string \<times> string \<times> string \<Rightarrow> bool" where
  "seg_ok sg = (case sg of (x, w1, w2, c) \<Rightarrow>
      \<not> contains ''members'' x \<and> list_all is_space w1 \<and> list_all is_space w2 \<and> CHR '']'' \<notin> set c)"

definition with_literals :: "(string \<times> string \<times> string \<times> string) list \<Rightarrow> string \<Rightarrow> string" where
  "with_literals segs tail =
     concat (map (\<lambda>(x, w1, w2, c). x @ members_literal w1 w2 c) segs) @ tail"

definition with_block :: "string \<Rightarrow> (string \<times> string \<times> string \<times> string) list \<Rightarrow> string \<Rightarrow> string" where
  "with_block b segs tail = concat (map (\<lambda>(x, w1, w2, c). x @ b) segs) @ tail"


text \<open>
  Examples: a manifest with a members literal, a conflict without entries and a
  \<^verbatim>\<open>default-members\<close> literal after it; the same with a member that has a backslash.
\<close>

definition two_literals_doc :: string where
  "two_literals_doc =
     lines_text [''[workspace]'', ''members = ['' @ [DQ] @ ''a'' @ [DQ] @ '']'',
                 ''<<<<<<< HEAD'', ''foo'', ''======='', ''bar'', ''>>>>>>> other'',
                 ''default-members = ['' @ [DQ] @ ''z'' @ [DQ] @ '']'']"

definition two_literals_segs :: "(string \<times> string \<times> string \<times> string) list" where
  "two_literals_segs =
     [(''[workspace]'' @ [NL], '' '', '' '', [DQ] @ ''a'' @ [DQ]),
      ([NL] @ ''foo'' @ [NL] @ ''default-'', '' '', '' '', [DQ] @ ''z'' @ [DQ])]"


definition backslash_doc :: string where
  "backslash_doc =
     lines_text [''members = ['' @ [DQ] @ ''a'' @ [BS, BS] @ ''b'' @ [DQ] @ '']'',
                 ''<<<<<<< HEAD'', ''x'', ''======='', ''y'', ''>>>>>>> other'',
                 ''default-members = []'']"

text \<open>
  The lines outside every conflict region, after section 4.1 of the specification: a
  region opens at a start-marker line and closes at an end-marker line; marker lines
  themselves are not outside lines. \<open>inside\<close> says whether a region is open.
\<close>

fun outside :: "bool \<Rightarrow> string list \<Rightarrow> string list" where
  "outside inside [] = []"
| "outside inside (l # ls) =
     (if prefix ''<<<<<<< '' l then outside True ls
      else if prefix ''======='' l then outside inside ls
      else if prefix ''>>>>>>> '' l then outside False ls
      else if inside then outside inside ls
      else l # outside False ls)"

definition is_declaration :: "string \<Rightarrow> bool" where
  "is_declaration l = (match_at pub_mod_line_rx (strip l) \<noteq> None)"

definition outside_lines :: "string list \<Rightarrow> string list" where
  "outside_lines ls = filter (\<lambda>l. \<not> is_declaration l) (outside False ls)"

text \<open>The entry that \<^verbatim>\<open>extract_pub_mods\<close> takes from one line of a block, if any.\<close>

definition decl_of :: "string \<Rightarrow> string option" where
  "decl_of line = (case match_at pub_mod_rx (strip line) of Some (cs, r) \<Rightarrow> Some (grp 1 cs) | None \<Rightarrow> None)"


text \<open>No line and no declaration of a scan state has a newline in it.\<close>

definition nl_free :: "scan \<Rightarrow> bool" where
  "nl_free st = (\<forall>l \<in> set (resolved_lines st) \<union> set (all_pub_mods st). NL \<notin> set l)"


text \<open>
  Examples: blank lines after a conflict; a conflict without entries followed by a line and
  by a members conflict; a file that is one members conflict; the declaration conflict of
  scenario B of the specification.
\<close>

definition blank_run_doc :: string where
  "blank_run_doc = lines_text [''<<<<<<< a'', ''>>>>>>> b'', ''x'', '''', '''', '''', ''y'']"

definition span_doc :: string where
  "span_doc = lines_text [''<<<<<<< a'', ''keep1'', ''======='', ''k2'', ''>>>>>>> b'', ''important'',
                          ''<<<<<<< c'', ''members = ['' @ [DQ] @ ''x'' @ [DQ] @ '']'', ''======='',
                          ''members = ['' @ [DQ] @ ''y'' @ [DQ] @ '']'', ''>>>>>>> d'']"

definition members_only_doc :: string where
  "members_only_doc = lines_text [''<<<<<<< a'', ''members = ['' @ [DQ] @ ''a'' @ [DQ] @ '']'', ''======='',
                      ''members = ['' @ [DQ] @ ''b'' @ [DQ] @ '']'', ''>>>>>>> b'']"


definition scenario_b_doc :: string where
  "scenario_b_doc =
     lines_text [''use a;'', ''<<<<<<< HEAD'', ''pub mod zeta;'', ''======='',
                 ''pub mod alpha;'', ''pub mod zeta;'', ''>>>>>>> other'', ''fn main() {}'']"

text \<open>The language of a pattern: the texts it can match, whatever the order of the search.\<close>

fun lang :: "rx \<Rightarrow> string set" where
  "lang (Lit l) = {l}"
| "lang (Star P) = {u. list_all P u}"
| "lang (Plus P) = {u. u \<noteq> [] \<and> list_all P u}"
| "lang (Lazy P) = {u. list_all P u}"
| "lang (Seq a b) = {u @ v | u v. u \<in> lang a \<and> v \<in> lang b}"
| "lang (Opt a) = insert [] (lang a)"
| "lang (Grp n a) = lang a"


text \<open>The text of a declaration, as the scan collects it.\<close>

definition decl_text :: "string \<Rightarrow> bool" where
  "decl_text m = (strip m = m \<and> is_declaration m \<and> \<not> marker_line m \<and> m \<noteq> [])"


text \<open>
  \<open>drops_blank ls ms\<close>: the lines \<open>ms\<close> are the lines \<open>ls\<close> with some empty lines left
  out. A plain line is neither a marker line nor a declaration.
\<close>

inductive drops_blank :: "string list \<Rightarrow> string list \<Rightarrow> bool" where
  db_Nil: "drops_blank [] []"
| db_Keep: "drops_blank ls ms \<Longrightarrow> drops_blank (l # ls) (l # ms)"
| db_Drop: "drops_blank ls ms \<Longrightarrow> drops_blank ([] # ls) ms"

definition plain_line :: "string \<Rightarrow> bool" where
  "plain_line l = (\<not> marker_line l \<and> \<not> is_declaration l)"


text \<open>
  Examples: a declaration conflict in a file whose comment mentions the start marker;
  nested markers.
\<close>

definition midline_doc :: string where
  "midline_doc = lines_text [''// see <<<<<<< markers'', ''<<<<<<< HEAD'', ''pub mod b;'', ''======='',
                             ''pub mod a;'', ''>>>>>>> other'', ''fn f() {}'']"

definition nested_doc :: string where
  "nested_doc = lines_text [''<<<<<<< a'', ''<<<<<<< c'', ''foo'', ''======='', ''x'', ''>>>>>>> b'',
                            ''======='', ''bar'', ''>>>>>>> d'']"


text \<open>
  A file of the manifest tool with one conflict region: the lines before it, the label
  of the start marker, the lines of the two sides, the label of the end marker, the
  lines after it. \<open>manifest_line\<close> is a line without newline, start-marker text or the
  word \<^verbatim>\<open>members\<close>; a \<open>side_line\<close> has no end-marker text either.
\<close>

definition manifest_line :: "string \<Rightarrow> bool" where
  "manifest_line l = (NL \<notin> set l \<and> \<not> contains ''<<<<<<<'' l \<and> \<not> contains ''members'' l)"

definition side_line :: "string \<Rightarrow> bool" where
  "side_line l = (manifest_line l \<and> \<not> contains ''>>>>>>>'' l)"

definition region_doc :: "string list \<Rightarrow> string \<Rightarrow> string list \<Rightarrow> string list \<Rightarrow> string \<Rightarrow> string list \<Rightarrow> string" where
  "region_doc pre lab ours theirs lab2 post =
     lines_text (pre @ [''<<<<<<<'' @ lab] @ ours @ [''=======''] @ theirs @ [''>>>>>>>'' @ lab2] @ post)"


text \<open>Scenario A: a members conflict under the \<^verbatim>\<open>[workspace]\<close> header.\<close>

definition scenario_a_doc :: string where
  "scenario_a_doc =
     lines_text [''[workspace]'', ''<<<<<<< HEAD'',
                 ''members = ['' @ [DQ] @ ''a'' @ [DQ] @ '','' @ [DQ] @ ''c'' @ [DQ] @ '']'',
                 ''======='',
                 ''members = ['' @ [DQ] @ ''b'' @ [DQ] @ '','' @ [DQ] @ ''a'' @ [DQ] @ '']'',
                 ''>>>>>>> other'']"


text \<open>
  A members literal starts at the beginning of the text: \<^verbatim>\<open>members\<close>, blanks, \<^verbatim>\<open>=\<close>,
  blanks, \<^verbatim>\<open>[\<close>, and a closing bracket somewhere after.
\<close>

definition literal_at :: "string \<Rightarrow> bool" where
  "literal_at u = (case members_head u of Some r \<Rightarrow> CHR '']'' \<in> set r | None \<Rightarrow> False)"

section \<open>Properties of the matcher and of the patterns\<close>

declare star_greedy.simps [simp del] star_lazy.simps [simp del]

lemma strip_prefix_append [simp]: "strip_prefix l (l @ s) = Some s"
  by (induction l) auto

lemma strip_prefix_Some: "strip_prefix l s = Some r \<longleftrightarrow> s = l @ r"
  by (induction l s rule: strip_prefix.induct) auto

lemma strip_prefix_None: "strip_prefix l s = None \<longleftrightarrow> \<not> prefix l s"
  by (induction l s rule: strip_prefix.induct) auto

lemma star_greedy_longest:
  "k cs (dropWhile P s) \<noteq> None \<Longrightarrow> star_greedy P cs s k = k cs (dropWhile P s)"
  by (induction s) (auto simp: star_greedy.simps split: option.splits)

lemma star_greedy_det:
  "(\<And>c r. P c \<Longrightarrow> k cs (c # r) = None) \<Longrightarrow> star_greedy P cs s k = k cs (dropWhile P s)"
  by (induction s) (auto simp: star_greedy.simps split: option.splits)

lemma star_lazy_here: "k cs s = Some r \<Longrightarrow> star_lazy P cs s k = Some r"
  by (cases s) (auto simp: star_lazy.simps)

lemma star_lazy_skip:
  "(\<And>w. w \<noteq> [] \<Longrightarrow> suffix w u \<Longrightarrow> k cs (w @ v) = None) \<Longrightarrow> list_all P u
   \<Longrightarrow> star_lazy P cs (u @ v) k = star_lazy P cs v k"
proof (induction u)
  case Nil
  then show ?case by simp
next
  case (Cons a u)
  have "k cs ((a # u) @ v) = None" using Cons.prems(1)[of "a # u"] by simp
  moreover have "star_lazy P cs (u @ v) k = star_lazy P cs v k"
    using Cons.IH Cons.prems by (simp add: suffix_Cons)
  ultimately show ?case using Cons.prems(2) by (simp add: star_lazy.simps)
qed

lemma star_lazy_None:
  "(\<And>w. suffix w s \<Longrightarrow> k cs w = None) \<Longrightarrow> star_lazy P cs s k = None"
  by (induction s) (auto simp: suffix_Cons star_lazy.simps)

lemma any_char_all [simp]: "list_all any_char u"
  by (simp add: list_all_iff any_char_def)

text \<open>A lazy \<open>.*?\<close> followed by one character \<open>x\<close>, after which the match cannot fail.\<close>

lemma star_lazy_find_char:
  "star_lazy any_char cs s
     (\<lambda>cs' s'. case strip_prefix [x] s' of Some r \<Rightarrow> Some (F cs' s' r) | None \<Rightarrow> None)
   = (if x \<in> set s
      then Some (F cs (dropWhile (\<lambda>c. c \<noteq> x) s) (tl (dropWhile (\<lambda>c. c \<noteq> x) s)))
      else None)"
  by (induction s) (auto simp: star_lazy.simps any_char_def)

lemma space_not_eq [simp]: "is_space c \<Longrightarrow> (CHR ''='' = c) = False" "is_space c \<Longrightarrow> (CHR ''['' = c) = False"
  by (auto simp: is_space_def)

lemma rx_members_head:
  "rx_match (Seq (Lit ''members'') (Seq (Star is_space) (Seq (Lit ''='') (Seq (Star is_space)
      (Seq (Lit ''['') R))))) cs s k
   = (case members_head s of None \<Rightarrow> None | Some r \<Rightarrow> rx_match R cs r k)"
  by (simp add: members_head_def star_greedy_det split: option.splits)

lemma rx_members_head_end:
  "rx_match (Seq (Lit ''members'') (Seq (Star is_space) (Seq (Lit ''='') (Seq (Star is_space)
      (Lit ''[''))))) cs s k
   = (case members_head s of None \<Rightarrow> None | Some r \<Rightarrow> k cs r)"
  by (simp add: members_head_def star_greedy_det split: option.splits)

lemma take_minus_dropWhile [simp]:
  "take (length x - length (dropWhile P x)) x = takeWhile P x"
  by (induction x) (auto simp: Suc_diff_le length_dropWhile_le)

lemma match_at_members_rx:
  "match_at members_rx s =
     (case members_head s of
        None \<Rightarrow> None
      | Some r \<Rightarrow>
          if CHR '']'' \<in> set r
          then Some ([(0, take (length s - length (tl (dropWhile (\<lambda>c. c \<noteq> CHR '']'') r))) s),
                      (1, takeWhile (\<lambda>c. c \<noteq> CHR '']'') r)],
                     tl (dropWhile (\<lambda>c. c \<noteq> CHR '']'') r))
          else None)"
  by (simp add: match_at_def members_rx_def members_head_def star_greedy_det star_lazy_find_char
        split: option.splits)

lemma is_space_simps [simp]:
  "is_space (CHR '' '')" "\<not> is_space (CHR ''='')" "\<not> is_space (CHR ''['')" "is_space NL"
  by (simp_all add: is_space_def)

lemma members_head_literal [simp]:
  "members_head (CHR ''m'' # CHR ''e'' # CHR ''m'' # CHR ''b'' # CHR ''e'' # CHR ''r'' # CHR ''s'' #
                 CHR '' '' # CHR ''='' # CHR '' '' # CHR ''['' # r) = Some r"
  by (simp add: members_head_def)

lemma takeWhile_until [simp]: "x \<notin> set c \<Longrightarrow> takeWhile (\<lambda>y. y \<noteq> x) (c @ x # r) = c"
  by (induction c) auto

lemma dropWhile_until [simp]: "x \<notin> set c \<Longrightarrow> dropWhile (\<lambda>y. y \<noteq> x) (c @ x # r) = x # r"
  by (induction c) auto


subsection \<open>Blank-line cleanup\<close>

lemma match_at_blank_rx:
  "match_at blank_rx s =
     (if prefix [NL, NL, NL] s
      then Some ([(0, takeWhile (\<lambda>x. x = NL) s)], dropWhile (\<lambda>x. x = NL) s)
      else None)"
proof (cases "strip_prefix [NL, NL, NL] s")
  case None
  then have "\<not> prefix [NL, NL, NL] s" by (simp add: strip_prefix_None)
  then show ?thesis using None
    by (simp add: match_at_def blank_rx_def)
next
  case (Some r)
  then have s: "s = [NL, NL, NL] @ r" by (simp add: strip_prefix_Some)
  have "star_greedy (is_char NL) [] r (\<lambda>cs' s'. Some ((0, take (length s - length s') s) # cs', s'))
        = Some ([(0, take (length s - length (dropWhile (is_char NL) r)) s)], dropWhile (is_char NL) r)"
    by (rule star_greedy_longest) simp
  moreover have ic: "is_char NL = (\<lambda>x. x = NL)" by (auto simp: is_char_def)
  moreover have "take (length s - length (dropWhile (\<lambda>x. x = NL) r)) s = takeWhile (\<lambda>x. x = NL) s"
    using take_minus_dropWhile [where P = "\<lambda>x. x = NL" and x = s] by (simp add: s)
  ultimately show ?thesis
    using Some by (simp add: match_at_def blank_rx_def s)
qed

lemma squeeze_2: "squeeze (Suc (Suc 0)) u = squeeze 0 (dropWhile (\<lambda>x. x = NL) u)"
  by (induction u) auto

lemma squeeze_1: "\<not> prefix [NL, NL] t \<Longrightarrow> squeeze (Suc 0) t = squeeze 0 t"
  by (cases t; cases "tl t") (auto simp: numeral_2_eq_2)

lemma collapse_blank_squeeze: "collapse_blank s = squeeze 0 s"
proof (induction s rule: length_induct)
  case (1 s)
  show ?case
  proof (cases s)
    case Nil
    then show ?thesis
      unfolding collapse_blank_def
      by (subst rx_sub.simps) (simp add: match_at_blank_rx)
  next
    case (Cons c t)
    have IHt: "collapse_blank t = squeeze 0 t" using 1 Cons by simp
    show ?thesis
    proof (cases "prefix [NL, NL, NL] s")
      case True
      then obtain r where r: "s = NL # NL # NL # r" by (auto simp: prefix_def)
      let ?d = "dropWhile (\<lambda>x. x = NL) r"
      have len: "length ?d < length s" using length_dropWhile_le [of "\<lambda>x. x = NL" r] by (simp add: r)
      have "collapse_blank s = [NL, NL] @ collapse_blank ?d"
        unfolding collapse_blank_def
        by (subst rx_sub.simps) (use len in \<open>simp add: match_at_blank_rx r\<close>)
      also have "collapse_blank ?d = squeeze 0 ?d" using 1 len by simp
      finally show ?thesis by (simp add: r squeeze_2 numeral_2_eq_2)
    next
      case False
      then have "collapse_blank s = c # collapse_blank t"
        unfolding collapse_blank_def
        by (subst rx_sub.simps) (auto simp add: match_at_blank_rx Cons)
      then have a: "collapse_blank s = c # squeeze 0 t" by (simp add: IHt)
      show ?thesis
      proof (cases "c = NL")
        case True
        then have "\<not> prefix [NL, NL] t" using False Cons by simp
        then show ?thesis using a True Cons by (simp add: squeeze_1)
      next
        case False
        then show ?thesis using a Cons by simp
      qed
    qed
  qed
qed

lemma squeeze_run_ok: "n \<le> 2 \<Longrightarrow> run_ok n (squeeze n s)"
  by (induction s arbitrary: n) auto

lemma run_ok_mono: "run_ok n s \<Longrightarrow> m \<le> n \<Longrightarrow> run_ok m s"
  by (induction s arbitrary: n m) (auto split: if_splits)

lemma run_ok_squeeze_id: "run_ok n s \<Longrightarrow> squeeze n s = s"
  by (induction s arbitrary: n) (auto split: if_splits)

lemma run_ok_append_right: "run_ok n (u @ v) \<Longrightarrow> run_ok 0 v"
  by (induction u arbitrary: n) (auto split: if_splits intro: run_ok_mono)

lemma run_ok_no_triple: "run_ok 0 s \<Longrightarrow> \<not> suffix [NL, NL, NL] s"
proof
  assume a: "run_ok 0 s" and "suffix [NL, NL, NL] s"
  then obtain u where "s = u @ [NL, NL, NL]" by (auto simp: suffix_def)
  with a have "run_ok 0 [NL, NL, NL]" using run_ok_append_right by blast
  then show False by simp
qed

lemma collapse_blank_idem: "collapse_blank (collapse_blank s) = collapse_blank s"
  by (simp add: collapse_blank_squeeze run_ok_squeeze_id squeeze_run_ok)

lemma squeeze_append_char:
  "c \<noteq> NL \<Longrightarrow> squeeze n (x @ c # y) = squeeze n x @ c # squeeze 0 y"
  by (induction x arbitrary: n) auto


subsection \<open>Console, files and plain templates\<close>

lemma fold_print_out [simp]:
  "err (fold print_out ls w) = err w"
  "out (fold print_out ls w) = out w @ ls"
  "files (fold print_out ls w) = files w"
  by (induction ls arbitrary: w) (auto simp: print_out_def)

lemma print_simps [simp]:
  "err (print_out l w) = err w" "out (print_out l w) = out w @ [l]" "files (print_out l w) = files w"
  "err (print_err l w) = err w @ [l]" "out (print_err l w) = out w" "files (print_err l w) = files w"
  "err (write_text p t w) = err w" "out (write_text p t w) = out w"
  "files (write_text p t w) = (files w)(p \<mapsto> t)"
  by (simp_all add: print_out_def print_err_def write_text_def)

lemma parse_template_plain:
  "BS \<notin> set t \<Longrightarrow> parse_template g t = Inr (map (\<lambda>c. PLit [c]) t)"
  by (induction t) auto

lemma expand_plain [simp]: "expand (map (\<lambda>c. PLit [c]) t) cs = t"
  by (induction t) auto

lemma expand_plain_fun: "expand (map (\<lambda>c. PLit [c]) t) = (\<lambda>cs. t)"
  by (rule ext) simp

lemma rx_sub_template_plain:
  "BS \<notin> set t \<Longrightarrow> rx_sub_template p g t s = Inr (rx_sub p (\<lambda>cs. t) s)"
  by (simp add: rx_sub_template_def parse_template_plain expand_plain_fun)

lemma splice_members_empty:
  "\<exists>r. splice_members [] resolved = Inr r"
  by (simp add: splice_members_def new_members_block_def rx_sub_template_plain)


subsection \<open>Search and substitution over a text with members literals\<close>

lemma contains_iff: "contains p s \<longleftrightarrow> (\<exists>w. suffix w s \<and> prefix p w)"
  by (induction s) (auto simp: suffix_Cons)

lemma not_contains_suffix: "\<not> contains p s \<Longrightarrow> suffix w s \<Longrightarrow> \<not> prefix p w"
  by (auto simp: contains_iff)

lemma members_straddle:
  "prefix ''members'' (u @ CHR ''m'' # CHR ''e'' # r) \<Longrightarrow> u = [] \<or> prefix ''members'' u"
  apply (cases u, simp)
  apply (rename_tac a1 u1, case_tac u1, simp)
  apply (rename_tac a2 u2, case_tac u2, simp)
  apply (rename_tac a3 u3, case_tac u3, simp)
  apply (rename_tac a4 u4, case_tac u4, simp)
  apply (rename_tac a5 u5, case_tac u5, simp)
  apply (rename_tac a6 u6, case_tac u6, simp)
  apply simp
  done

lemma members_head_prefix: "members_head s \<noteq> None \<Longrightarrow> prefix ''members'' s"
proof (rule ccontr)
  assume a: "members_head s \<noteq> None" and "\<not> prefix ''members'' s"
  then have "strip_prefix ''members'' s = None" by (simp add: strip_prefix_None)
  then show False using a by (simp add: members_head_def)
qed

lemma no_head_in_gap:
  assumes "\<not> contains ''members'' x" "u \<noteq> []" "suffix u x"
  shows "members_head (u @ CHR ''m'' # CHR ''e'' # r) = None"
proof (rule ccontr)
  assume "members_head (u @ CHR ''m'' # CHR ''e'' # r) \<noteq> None"
  then have "prefix ''members'' (u @ CHR ''m'' # CHR ''e'' # r)" by (rule members_head_prefix)
  then have "prefix ''members'' u" using members_straddle assms(2) by blast
  then show False using assms(1,3) not_contains_suffix by blast
qed

lemma no_head_in_tail:
  assumes "\<not> contains ''members'' x" "suffix u x"
  shows "members_head u = None"
  using assms members_head_prefix not_contains_suffix by blast

lemma match_at_members_literal_rx:
  "match_at members_literal_rx s =
     (case members_head s of
        None \<Rightarrow> None
      | Some r \<Rightarrow>
          if CHR '']'' \<in> set r
          then Some ([(0, take (length s - length (tl (dropWhile (\<lambda>c. c \<noteq> CHR '']'') r))) s)],
                     tl (dropWhile (\<lambda>c. c \<noteq> CHR '']'') r))
          else None)"
  by (simp add: match_at_def members_literal_rx_def members_head_def star_greedy_det
        star_lazy_find_char split: option.splits)

lemma match_at_members_head_rx:
  "match_at members_head_rx s =
     (case members_head s of
        None \<Rightarrow> None
      | Some r \<Rightarrow> Some ([(0, take (length s - length r) s)], r))"
  by (simp add: match_at_def members_head_rx_def members_head_def star_greedy_det
        split: option.splits)

lemma rx_sub_skip:
  "(\<And>u. u \<noteq> [] \<Longrightarrow> suffix u x \<Longrightarrow> match_at p (u @ rest) = None)
   \<Longrightarrow> rx_sub p repl (x @ rest) = x @ rx_sub p repl rest"
proof (induction x)
  case Nil
  then show ?case by simp
next
  case (Cons a x)
  have "match_at p ((a # x) @ rest) = None" using Cons.prems [of "a # x"] by simp
  then have "rx_sub p repl ((a # x) @ rest) = a # rx_sub p repl (x @ rest)"
    by (subst rx_sub.simps) simp
  moreover have "rx_sub p repl (x @ rest) = x @ rx_sub p repl rest"
    using Cons.IH Cons.prems by (simp add: suffix_Cons)
  ultimately show ?case by simp
qed

lemma rx_sub_no_match:
  "(\<And>u. suffix u x \<Longrightarrow> match_at p u = None) \<Longrightarrow> rx_sub p repl x = x"
proof (induction x)
  case Nil
  then show ?case by (subst rx_sub.simps) simp
next
  case (Cons a x)
  then have "match_at p (a # x) = None" by simp
  then have "rx_sub p repl (a # x) = a # rx_sub p repl x"
    by (subst rx_sub.simps) simp
  then show ?case using Cons by (simp add: suffix_Cons)
qed

lemma rx_sub_match:
  "match_at p s = Some (cs, r) \<Longrightarrow> length r < length s \<Longrightarrow> rx_sub p repl s = repl cs @ rx_sub p repl r"
  by (subst rx_sub.simps) simp

lemma rx_search_skip:
  "(\<And>u. u \<noteq> [] \<Longrightarrow> suffix u x \<Longrightarrow> match_at p (u @ rest) = None)
   \<Longrightarrow> rx_search p (x @ rest) = (case rx_search p rest of None \<Rightarrow> None | Some (pre, cs, r) \<Rightarrow> Some (x @ pre, cs, r))"
proof (induction x)
  case Nil
  then show ?case by (simp split: option.splits)
next
  case (Cons a x)
  have "match_at p ((a # x) @ rest) = None" using Cons.prems [of "a # x"] by simp
  moreover have "rx_search p (x @ rest) = (case rx_search p rest of None \<Rightarrow> None | Some (pre, cs, r) \<Rightarrow> Some (x @ pre, cs, r))"
    using Cons.IH Cons.prems by (simp add: suffix_Cons)
  ultimately show ?case by (simp split: option.splits)
qed

lemma rx_search_here: "match_at p s = Some (cs, r) \<Longrightarrow> rx_search p s = Some ([], cs, r)"
  by (cases s) auto

lemma rx_search_None:
  "(\<And>u. suffix u x \<Longrightarrow> match_at p u = None) \<Longrightarrow> rx_search p x = None"
  by (induction x) (auto simp: suffix_Cons)

lemma dropWhile_spaces:
  "list_all is_space w \<Longrightarrow> \<not> is_space c \<Longrightarrow> dropWhile is_space (w @ c # r) = c # r"
  by (induction w) auto

lemma members_head_general:
  "list_all is_space w1 \<Longrightarrow> list_all is_space w2 \<Longrightarrow>
   members_head (CHR ''m'' # CHR ''e'' # CHR ''m'' # CHR ''b'' # CHR ''e'' # CHR ''r'' # CHR ''s'' #
                 w1 @ CHR ''='' # w2 @ CHR ''['' # r) = Some r"
  by (simp add: members_head_def dropWhile_spaces)

lemma literal_match:
  assumes "list_all is_space w1" "list_all is_space w2" "CHR '']'' \<notin> set c"
  shows "\<exists>cs. match_at members_literal_rx (members_literal w1 w2 c @ rest) = Some (cs, rest)"
proof -
  have "members_head (members_literal w1 w2 c @ rest) = Some (c @ CHR '']'' # rest)"
    using members_head_general [OF assms(1,2)] by (simp add: members_literal_def)
  then show ?thesis using assms(3) by (simp add: match_at_members_literal_rx)
qed

lemma literal_head_match:
  assumes "list_all is_space w1" "list_all is_space w2"
  shows "match_at members_head_rx (members_literal w1 w2 c @ rest) \<noteq> None"
proof -
  have "members_head (members_literal w1 w2 c @ rest) = Some (c @ CHR '']'' # rest)"
    using members_head_general [OF assms(1,2)] by (simp add: members_literal_def)
  then show ?thesis by (simp add: match_at_members_head_rx)
qed

lemma gap_no_literal:
  assumes "\<not> contains ''members'' x" "u \<noteq> []" "suffix u x"
  shows "match_at members_literal_rx (u @ members_literal w1 w2 c @ rest) = None"
        "match_at members_head_rx (u @ members_literal w1 w2 c @ rest) = None"
  using no_head_in_gap [OF assms]
  by (simp_all add: match_at_members_literal_rx match_at_members_head_rx members_literal_def)

lemma tail_no_literal:
  assumes "\<not> contains ''members'' x" "suffix u x"
  shows "match_at members_literal_rx u = None"
  using no_head_in_tail [OF assms] by (simp add: match_at_members_literal_rx)

lemma sub_with_literals:
  assumes "list_all seg_ok segs" "\<not> contains ''members'' tail"
  shows "rx_sub members_literal_rx (\<lambda>cs. b) (with_literals segs tail) = with_block b segs tail"
  using assms(1)
proof (induction segs)
  case Nil
  show ?case using rx_sub_no_match [of tail members_literal_rx] tail_no_literal [OF assms(2)]
    by (simp add: with_literals_def with_block_def)
next
  case (Cons sg segs)
  obtain x w1 w2 c where sg: "sg = (x, w1, w2, c)" by (cases sg) auto
  have ok: "\<not> contains ''members'' x" "list_all is_space w1" "list_all is_space w2" "CHR '']'' \<notin> set c"
    using Cons.prems by (simp_all add: sg seg_ok_def)
  let ?rest = "with_literals segs tail"
  have doc_eq: "with_literals (sg # segs) tail = x @ members_literal w1 w2 c @ ?rest"
    by (simp add: with_literals_def sg)
  obtain cs where m: "match_at members_literal_rx (members_literal w1 w2 c @ ?rest) = Some (cs, ?rest)"
    using literal_match [OF ok(2,3,4)] by blast
  have "rx_sub members_literal_rx (\<lambda>cs. b) (x @ members_literal w1 w2 c @ ?rest)
        = x @ rx_sub members_literal_rx (\<lambda>cs. b) (members_literal w1 w2 c @ ?rest)"
    by (rule rx_sub_skip) (rule gap_no_literal (1) [OF ok(1)])
  also have "rx_sub members_literal_rx (\<lambda>cs. b) (members_literal w1 w2 c @ ?rest)
        = b @ rx_sub members_literal_rx (\<lambda>cs. b) ?rest"
    by (rule rx_sub_match [OF m]) (simp add: members_literal_def)
  also have "rx_sub members_literal_rx (\<lambda>cs. b) ?rest = with_block b segs tail"
    using Cons by simp
  finally show ?case unfolding doc_eq by (simp add: with_block_def sg)
qed

lemma search_with_literals:
  assumes "list_all seg_ok segs" "segs \<noteq> []"
  shows "rx_search members_head_rx (with_literals segs tail) \<noteq> None"
proof -
  obtain sg segs' where s: "segs = sg # segs'" using assms(2) by (cases segs) auto
  obtain x w1 w2 c where sg: "sg = (x, w1, w2, c)" by (cases sg) auto
  have ok: "\<not> contains ''members'' x" "list_all is_space w1" "list_all is_space w2"
    using assms(1) by (simp_all add: s sg seg_ok_def)
  let ?rest = "with_literals segs' tail"
  have doc_eq: "with_literals segs tail = x @ members_literal w1 w2 c @ ?rest"
    by (simp add: with_literals_def s sg)
  obtain cs r where "match_at members_head_rx (members_literal w1 w2 c @ ?rest) = Some (cs, r)"
    using literal_head_match [OF ok(2,3)] by fastforce
  then have "rx_search members_head_rx (members_literal w1 w2 c @ ?rest) = Some ([], cs, r)"
    by (rule rx_search_here)
  moreover have "rx_search members_head_rx (x @ members_literal w1 w2 c @ ?rest)
      = (case rx_search members_head_rx (members_literal w1 w2 c @ ?rest) of None \<Rightarrow> None
         | Some (pre, cs, r) \<Rightarrow> Some (x @ pre, cs, r))"
    by (rule rx_search_skip) (rule gap_no_literal (2) [OF ok(1)])
  ultimately show ?thesis by (simp add: doc_eq)
qed

lemma join_with_set:
  "set (join_with sep ls) \<subseteq> set sep \<union> set (concat ls)"
  by (induction sep ls rule: join_with.induct) auto

lemma block_no_backslash:
  assumes "BS \<notin> set (concat ms)"
  shows "BS \<notin> set (new_members_block ms)"
proof -
  have "set (concat (map (\<lambda>m. [DQ] @ m @ [DQ]) ms)) \<subseteq> {DQ} \<union> set (concat ms)"
    by (induction ms) auto
  then have "BS \<notin> set (join_with ('','' @ [NL] @ ''    '') (map (\<lambda>m. [DQ] @ m @ [DQ]) ms))"
    using join_with_set [of "'','' @ [NL] @ ''    ''" "map (\<lambda>m. [DQ] @ m @ [DQ]) ms"] assms
    by auto
  then show ?thesis by (auto simp: new_members_block_def)
qed


section \<open>Properties of the declaration tool\<close>

subsection \<open>Lines\<close>

lemma split_nl_nonempty [simp]: "split_nl s \<noteq> []"
  by (induction s) (auto split: list.splits)

lemma split_nl_Cons_other [simp]:
  "c \<noteq> NL \<Longrightarrow> split_nl (c # s) = (c # hd (split_nl s)) # tl (split_nl s)"
  by (cases "split_nl s") auto

lemma split_nl_Cons_NL [simp]: "split_nl (NL # s) = [] # split_nl s"
  by simp

declare split_nl.simps(2) [simp del]

lemma split_nl_no_newline: "l \<in> set (split_nl s) \<Longrightarrow> NL \<notin> set l"
proof (induction s arbitrary: l)
  case Nil
  then show ?case by simp
next
  case (Cons c s)
  show ?case
  proof (cases "c = NL")
    case True
    then show ?thesis using Cons by auto
  next
    case False
    have "hd (split_nl s) \<in> set (split_nl s)" by simp
    moreover have "set (tl (split_nl s)) \<subseteq> set (split_nl s)" by (simp add: list.set_sel(2) subsetI)
    ultimately show ?thesis using Cons False by auto
  qed
qed

lemma join_split_nl [simp]: "join_nl (split_nl s) = s"
proof (induction s)
  case Nil
  then show ?case by simp
next
  case (Cons c s)
  show ?case
  proof (cases "c = NL")
    case True
    then show ?thesis using Cons by (cases "split_nl s") auto
  next
    case False
    then show ?thesis using Cons by (cases "split_nl s"; cases "tl (split_nl s)") auto
  qed
qed

lemma split_nl_line_append:
  "NL \<notin> set l \<Longrightarrow> split_nl (l @ s) = (l @ hd (split_nl s)) # tl (split_nl s)"
  by (induction l) auto

lemma split_nl_line_nl: "NL \<notin> set l \<Longrightarrow> split_nl (l @ NL # s) = l # split_nl s"
  by (simp add: split_nl_line_append)

lemma split_join_nl:
  "ls \<noteq> [] \<Longrightarrow> (\<forall>l \<in> set ls. NL \<notin> set l) \<Longrightarrow> split_nl (join_nl ls) = ls"
proof (induction ls rule: join_nl.induct)
  case 1
  then show ?case by simp
next
  case (2 l)
  then show ?case using split_nl_line_append [of l "[]"] by simp
next
  case (3 l v va)
  then show ?case by (simp add: split_nl_line_nl)
qed

lemma split_nl_snoc_nl: "split_nl (s @ [NL]) = split_nl s @ [[]]"
proof (induction s)
  case Nil
  then show ?case by simp
next
  case (Cons c s)
  then show ?case by (cases "c = NL"; cases "split_nl s") auto
qed

lemma split_lines_text: "(\<forall>l \<in> set ls. NL \<notin> set l) \<Longrightarrow> split_nl (lines_text ls @ s) = ls @ split_nl s"
  by (induction ls) (auto simp: lines_text_def split_nl_line_nl)

lemma hd_split_squeeze: "n < 2 \<Longrightarrow> hd (split_nl (squeeze n s)) = hd (split_nl s)"
proof (induction s arbitrary: n)
  case Nil
  then show ?case by simp
next
  case (Cons c s)
  show ?case
  proof (cases "c = NL")
    case True
    then show ?thesis using Cons.prems by simp
  next
    case False
    then show ?thesis using Cons.IH [of 0] by simp
  qed
qed

lemma filter_split_squeeze:
  "filter (\<lambda>l. l \<noteq> []) (split_nl (squeeze n s)) = filter (\<lambda>l. l \<noteq> []) (split_nl s)"
proof (induction s arbitrary: n)
  case Nil
  then show ?case by simp
next
  case (Cons c s)
  show ?case
  proof (cases "c = NL")
    case True
    then show ?thesis using Cons.IH by simp
  next
    case False
    obtain a as where a: "split_nl (squeeze 0 s) = a # as" by (cases "split_nl (squeeze 0 s)") auto
    obtain b bs where b: "split_nl s = b # bs" by (cases "split_nl s") auto
    have h: "a = b" using hd_split_squeeze [of 0 s] a b by simp
    have "filter (\<lambda>l. l \<noteq> []) (a # as) = filter (\<lambda>l. l \<noteq> []) (b # bs)"
      using Cons.IH [of 0] a b by simp
    then have t: "filter (\<lambda>l. l \<noteq> []) as = filter (\<lambda>l. l \<noteq> []) bs"
      using h by (simp split: if_splits)
    show ?thesis using False h t a b by simp
  qed
qed

lemma filter_split_join:
  "(\<forall>l \<in> set ls. NL \<notin> set l) \<Longrightarrow>
   filter (\<lambda>l. l \<noteq> []) (split_nl (join_nl ls)) = filter (\<lambda>l. l \<noteq> []) ls"
  by (cases "ls = []") (simp_all add: split_join_nl)

text \<open>The lines of the text the declaration tool writes, blank lines apart.\<close>

lemma librs_resolved_lines:
  assumes "\<forall>l \<in> set (place_mods (scan_lines (split_nl content))). NL \<notin> set l"
  shows "filter (\<lambda>l. l \<noteq> []) (split_nl (librs_resolved content))
         = filter (\<lambda>l. l \<noteq> []) (place_mods (scan_lines (split_nl content)))"
proof -
  let ?ls = "place_mods (scan_lines (split_nl content))"
  let ?r = "collapse_blank (join_nl ?ls)"
  have r: "filter (\<lambda>l. l \<noteq> []) (split_nl ?r) = filter (\<lambda>l. l \<noteq> []) ?ls"
    using assms by (simp add: collapse_blank_squeeze filter_split_squeeze filter_split_join)
  show ?thesis
  proof (cases "ends_nl ?r")
    case True
    then show ?thesis using r by (simp add: librs_resolved_def Let_def)
  next
    case False
    then show ?thesis using r by (simp add: librs_resolved_def Let_def split_nl_snoc_nl)
  qed
qed

subsection \<open>What a match returns comes from its continuation\<close>

lemma star_greedy_result:
  "star_greedy P cs s k = Some y \<Longrightarrow> \<exists>s'. suffix s' s \<and> k cs s' = Some y"
proof (induction s)
  case Nil
  then show ?case by (auto simp: star_greedy.simps)
next
  case (Cons c s)
  then show ?case
    by (auto simp: star_greedy.simps suffix_Cons split: if_splits option.splits)
qed

lemma star_lazy_result:
  "star_lazy P cs s k = Some y \<Longrightarrow> \<exists>s'. suffix s' s \<and> k cs s' = Some y"
proof (induction s)
  case Nil
  then show ?case by (auto simp: star_lazy.simps)
next
  case (Cons c s)
  then show ?case
    by (auto simp: star_lazy.simps suffix_Cons split: if_splits option.splits)
qed

lemma rx_match_result:
  "rx_match X cs s k = Some y \<Longrightarrow> \<exists>cs' s'. suffix s' s \<and> k cs' s' = Some y"
proof (induction X arbitrary: cs s k y)
  case (Lit l)
  then obtain s' where "s = l @ s'" "k cs s' = Some y"
    by (auto simp: strip_prefix_Some split: option.splits)
  moreover have "suffix s' (l @ s')" by (simp add: suffixI)
  ultimately show ?case by blast
next
  case (Star P)
  then show ?case using star_greedy_result by fastforce
next
  case (Plus P)
  then show ?case using star_greedy_result
    by (fastforce simp: suffix_Cons split: list.splits if_splits)
next
  case (Lazy P)
  then show ?case using star_lazy_result by fastforce
next
  case (Seq a b)
  from Seq.prems have "rx_match a cs s (\<lambda>cs' s'. rx_match b cs' s' k) = Some y" by simp
  then obtain cs1 s1 where 1: "suffix s1 s" "rx_match b cs1 s1 k = Some y"
    using Seq.IH(1) by blast
  then obtain cs2 s2 where "suffix s2 s1" "k cs2 s2 = Some y" using Seq.IH(2) by blast
  then show ?case using 1 suffix_order.trans by blast
next
  case (Opt a)
  then show ?case by (auto split: option.splits)
next
  case (Grp n a)
  from Grp.prems have "rx_match a cs s (\<lambda>cs' s'. k ((n, take (length s - length s') s) # cs') s') = Some y"
    by simp
  then show ?case using Grp.IH by blast
qed

lemma match_at_suffix: "match_at p s = Some (cs, r) \<Longrightarrow> suffix r s"
  unfolding match_at_def using rx_match_result by fastforce

lemma pub_mod_group:
  assumes "match_at pub_mod_rx s = Some (cs, r)"
  shows "grp 1 cs = take (length s - length r) s"
proof -
  obtain X where X: "pub_mod_rx = Grp 1 X" by (simp add: pub_mod_rx_def)
  have "match_at pub_mod_rx s
        = rx_match X [] s (\<lambda>cs' s'. Some ((0, take (length s - length s') s) #
                                           (1, take (length s - length s') s) # cs', s'))"
    unfolding match_at_def X by (simp only: rx_match.simps)
  with assms have
    "rx_match X [] s (\<lambda>cs' s'. Some ((0, take (length s - length s') s) #
                                      (1, take (length s - length s') s) # cs', s')) = Some (cs, r)"
    by simp
  from rx_match_result [OF this] obtain cs' s' where
    "Some ((0, take (length s - length s') s) # (1, take (length s - length s') s) # cs', s') = Some (cs, r)"
    by blast
  then show ?thesis by (auto simp: grp_def)
qed

lemma set_strip: "set (strip l) \<subseteq> set l"
proof -
  have "set (strip l) \<subseteq> set (rev (dropWhile is_space l))"
    unfolding strip_def using set_dropWhileD by fastforce
  also have "\<dots> \<subseteq> set l" using set_dropWhileD by fastforce
  finally show ?thesis .
qed

subsection \<open>Sets kept as lists\<close>

lemma set_set_add [simp]: "set (set_add x xs) = insert x (set xs)"
  by (auto simp: set_add_def)

lemma distinct_set_add [simp]: "distinct xs \<Longrightarrow> distinct (set_add x xs)"
  by (auto simp: set_add_def)

lemma set_set_update [simp]: "set (set_update xs ys) = set xs \<union> set ys"
  unfolding set_update_def by (induction ys arbitrary: xs) auto

lemma distinct_set_update [simp]: "distinct xs \<Longrightarrow> distinct (set_update xs ys)"
  unfolding set_update_def by (induction ys arbitrary: xs) auto

lemma set_update_Nil [simp]: "set_update xs [] = xs"
  by (simp add: set_update_def)

subsection \<open>Inserting the declarations\<close>

lemma insert_all_eq: "insert_all at ms ls = take at ls @ ms @ drop at ls"
proof (induction ms arbitrary: at ls)
  case Nil
  then show ?case by simp
next
  case (Cons m ms)
  show ?case
  proof (cases "at \<le> length ls")
    case True
    then show ?thesis by (simp add: Cons py_insert_def min_def)
  next
    case False
    then show ?thesis by (simp add: Cons py_insert_def)
  qed
qed

lemma place_mods_cases:
  "place_mods st = resolved_lines st \<and> all_pub_mods st = []
   \<or> (\<exists>at. place_mods st = take at (resolved_lines st) @ sorted_mods_of st @ drop at (resolved_lines st))"
  by (auto simp: place_mods_def Let_def insert_all_eq sorted_mods_of_def)

lemma set_sorted_mods [simp]: "set (sorted_mods_of st) = set (all_pub_mods st)"
  by (simp add: sorted_mods_of_def)

lemma set_place_mods: "set (place_mods st) = set (resolved_lines st) \<union> set (all_pub_mods st)"
proof -
  have "set (take at ls @ ms @ drop at ls) = set ls \<union> set ms" for at and ls ms :: "string list"
  proof -
    have "set (take at ls) \<union> set (drop at ls) = set ls"
      by (metis append_take_drop_id set_append)
    then show ?thesis by (simp add: Un_left_commute Un_commute Un_assoc)
  qed
  then show ?thesis using place_mods_cases [of st] by auto
qed

lemma subseq_place_mods: "subseq (resolved_lines st) (place_mods st)"
proof -
  have "subseq ls (take at ls @ ms @ drop at ls)" for at and ls ms :: "string list"
  proof -
    have "subseq (take at ls @ [] @ drop at ls) (take at ls @ ms @ drop at ls)"
      by (intro list_emb_append_mono subseq_order.order_refl) simp
    then show ?thesis by simp
  qed
  then show ?thesis using place_mods_cases [of st] by auto
qed

subsection \<open>The scan of the declaration tool\<close>

lemma scan_line_resolved:
  "resolved_lines (scan_line st l)
   = resolved_lines st @ filter (\<lambda>l. \<not> is_declaration l) (outside (in_conflict st) [l])"
  by (simp add: scan_line_def Let_def is_declaration_def)

lemma scan_line_in_conflict:
  "in_conflict (scan_line st l)
   = (if prefix ''<<<<<<< '' l then True
      else if prefix ''======='' l then in_conflict st
      else if prefix ''>>>>>>> '' l then False
      else in_conflict st)"
  by (simp add: scan_line_def Let_def)

lemma scan_resolved:
  "resolved_lines (foldl scan_line st ls)
   = resolved_lines st @ filter (\<lambda>l. \<not> is_declaration l) (outside (in_conflict st) ls)"
proof (induction ls arbitrary: st)
  case Nil
  then show ?case by simp
next
  case (Cons l ls)
  have "resolved_lines (foldl scan_line st (l # ls))
        = resolved_lines (scan_line st l)
          @ filter (\<lambda>l. \<not> is_declaration l) (outside (in_conflict (scan_line st l)) ls)"
    using Cons [of "scan_line st l"] by simp
  then show ?case by (simp add: scan_line_resolved scan_line_in_conflict)
qed

lemma scan_lines_outside: "resolved_lines (scan_lines ls) = outside_lines ls"
  by (simp add: scan_lines_def scan_resolved outside_lines_def scan_init_def)

lemma extract_pub_mods_set:
  "set (extract_pub_mods block) = {d. \<exists>line \<in> set (split_nl block). decl_of line = Some d}"
proof -
  let ?f = "\<lambda>mods line. case match_at pub_mod_rx (strip line) of
                Some (cs, r) \<Rightarrow> set_add (grp 1 cs) mods | None \<Rightarrow> mods"
  have "set (foldl ?f acc ls) = set acc \<union> {d. \<exists>line \<in> set ls. decl_of line = Some d}" for acc ls
    by (induction ls arbitrary: acc) (auto simp: decl_of_def split: option.splits)
  then show ?thesis by (simp add: extract_pub_mods_def)
qed

lemma decl_of_subset: "decl_of line = Some d \<Longrightarrow> set d \<subseteq> set line"
proof -
  assume "decl_of line = Some d"
  then obtain cs r where "match_at pub_mod_rx (strip line) = Some (cs, r)" "d = grp 1 cs"
    by (auto simp: decl_of_def split: option.splits)
  then have "d = take (length (strip line) - length r) (strip line)" using pub_mod_group by simp
  then have "set d \<subseteq> set (strip line)" by (simp add: set_take_subset)
  then show ?thesis using set_strip by blast
qed

lemma extract_pub_mods_no_newline: "d \<in> set (extract_pub_mods block) \<Longrightarrow> NL \<notin> set d"
  using decl_of_subset split_nl_no_newline by (fastforce simp: extract_pub_mods_set)

lemma scan_line_mods_mono: "set (all_pub_mods st) \<subseteq> set (all_pub_mods (scan_line st l))"
  by (auto simp: scan_line_def Let_def)

lemma scan_mods_mono: "set (all_pub_mods st) \<subseteq> set (all_pub_mods (foldl scan_line st ls))"
proof (induction ls arbitrary: st)
  case Nil
  then show ?case by simp
next
  case (Cons l ls)
  then show ?case using scan_line_mods_mono by fastforce
qed

lemma scan_line_nl_free: "nl_free st \<Longrightarrow> NL \<notin> set l \<Longrightarrow> nl_free (scan_line st l)"
  using set_strip [of l] extract_pub_mods_no_newline
  by (auto simp: scan_line_def Let_def nl_free_def)

lemma scan_nl_free:
  "nl_free st \<Longrightarrow> (\<forall>l \<in> set ls. NL \<notin> set l) \<Longrightarrow> nl_free (foldl scan_line st ls)"
  by (induction ls arbitrary: st) (auto simp: scan_line_nl_free)

lemma place_mods_no_newline:
  "l \<in> set (place_mods (scan_lines (split_nl content))) \<Longrightarrow> NL \<notin> set l"
proof -
  have "nl_free (scan_lines (split_nl content))"
    unfolding scan_lines_def
    by (rule scan_nl_free) (auto simp: nl_free_def scan_init_def split_nl_no_newline)
  then show "l \<in> set (place_mods (scan_lines (split_nl content))) \<Longrightarrow> NL \<notin> set l"
    by (auto simp: set_place_mods nl_free_def)
qed

lemma librs_lines:
  "filter (\<lambda>l. l \<noteq> []) (split_nl (librs_resolved content))
   = filter (\<lambda>l. l \<noteq> []) (place_mods (scan_lines (split_nl content)))"
  by (rule librs_resolved_lines) (simp add: place_mods_no_newline)


subsection \<open>The scan over one conflict region\<close>

lemma marker_prefix_exclusive:
  "prefix ''======='' l \<Longrightarrow> \<not> prefix ''<<<<<<< '' l"
  "prefix ''>>>>>>> '' l \<Longrightarrow> \<not> prefix ''<<<<<<< '' l"
  "prefix ''>>>>>>> '' l \<Longrightarrow> \<not> prefix ''======='' l"
  by (cases l; auto)+

lemma scan_line_start:
  "prefix ''<<<<<<< '' l \<Longrightarrow> scan_line st l = st\<lparr>in_conflict := True, conflict_section := []\<rparr>"
  by (simp add: scan_line_def)

lemma scan_line_sep:
  "prefix ''======='' l \<Longrightarrow>
   scan_line st l = st\<lparr>all_pub_mods := set_update (all_pub_mods st) (extract_pub_mods (conflict_section st)),
                        conflict_section := []\<rparr>"
  by (simp add: scan_line_def marker_prefix_exclusive)

lemma scan_line_end:
  "prefix ''>>>>>>> '' l \<Longrightarrow>
   scan_line st l = st\<lparr>all_pub_mods := set_update (all_pub_mods st) (extract_pub_mods (conflict_section st)),
                        in_conflict := False, conflict_section := [],
                        pub_mods_insertion_point := mark_insertion st\<rparr>"
  by (simp add: scan_line_def marker_prefix_exclusive)

lemma scan_line_inside:
  "in_conflict st \<Longrightarrow> \<not> marker_line l \<Longrightarrow>
   scan_line st l = st\<lparr>conflict_section := conflict_section st @ l @ [NL]\<rparr>"
  by (simp add: scan_line_def marker_line_def)

lemma scan_inside:
  "in_conflict st \<Longrightarrow> \<forall>l \<in> set ls. \<not> marker_line l \<Longrightarrow>
   foldl scan_line st ls = st\<lparr>conflict_section := conflict_section st @ lines_text ls\<rparr>"
proof (induction ls arbitrary: st)
  case Nil
  then show ?case by (simp add: lines_text_def)
next
  case (Cons l ls)
  then show ?case by (simp add: scan_line_inside lines_text_def)
qed

text \<open>The state after a region with a separator, from any state before it.\<close>

lemma scan_region:
  assumes "prefix ''<<<<<<< '' start" "prefix ''======='' sep" "prefix ''>>>>>>> '' fin"
    and "\<forall>l \<in> set ours. \<not> marker_line l" "\<forall>l \<in> set theirs. \<not> marker_line l"
  shows "foldl scan_line st ([start] @ ours @ [sep] @ theirs @ [fin])
         = st\<lparr>all_pub_mods :=
                 set_update (set_update (all_pub_mods st) (extract_pub_mods (lines_text ours)))
                            (extract_pub_mods (lines_text theirs)),
               in_conflict := False, conflict_section := [],
               pub_mods_insertion_point := mark_insertion st\<rparr>"
  using assms
  by (simp add: scan_line_start scan_inside scan_line_sep scan_line_end mark_insertion_def
        option.case_eq_if)

lemma scan_empty_region:
  assumes "prefix ''<<<<<<< '' start" "prefix ''>>>>>>> '' fin"
  shows "foldl scan_line st [start, fin]
         = st\<lparr>all_pub_mods := set_update (all_pub_mods st) (extract_pub_mods []),
               in_conflict := False, conflict_section := [],
               pub_mods_insertion_point := mark_insertion st\<rparr>"
  using assms by (simp add: scan_line_start scan_line_end mark_insertion_def option.case_eq_if)

lemma extract_pub_mods_empty [simp]: "extract_pub_mods [] = []"
  by (simp add: extract_pub_mods_def match_at_def pub_mod_rx_def strip_def)

lemma librs_resolved_scan:
  "scan_lines (split_nl c1) = scan_lines (split_nl c2) \<Longrightarrow> librs_resolved c1 = librs_resolved c2"
  by (simp add: librs_resolved_def)

lemma decl_nonempty: "decl_of line = Some d \<Longrightarrow> d \<noteq> []"
proof -
  assume "decl_of line = Some d"
  then obtain cs r where m: "match_at pub_mod_rx (strip line) = Some (cs, r)" and d: "d = grp 1 cs"
    by (auto simp: decl_of_def split: option.splits)
  let ?s = "strip line"
  obtain Y where Y: "pub_mod_rx = Grp 1 (Seq (Lit ''pub'') Y)" by (simp add: pub_mod_rx_def)
  define K :: "caps \<Rightarrow> string \<Rightarrow> (caps \<times> string) option" where
    "K = (\<lambda>cs' s'. Some ((0, take (length ?s - length s') ?s) #
                        (1, take (length ?s - length s') ?s) # cs', s'))"
  have "match_at pub_mod_rx ?s = rx_match (Lit ''pub'') [] ?s (\<lambda>cs' s'. rx_match Y cs' s' K)"
    unfolding match_at_def Y K_def by (simp only: rx_match.simps)
  with m obtain s1 where s1: "?s = ''pub'' @ s1" "rx_match Y [] s1 K = Some (cs, r)"
    by (auto simp: strip_prefix_Some split: option.splits)
  from rx_match_result [OF s1(2)] obtain cs' s' where "suffix s' s1" "K cs' s' = Some (cs, r)"
    by blast
  then have "suffix r s1" by (simp add: K_def)
  then have "length r \<le> length s1" by (rule suffix_length_le)
  then have "length r < length ?s" by (simp add: s1(1))
  then have "take (length ?s - length r) ?s \<noteq> []" by auto
  then show ?thesis using pub_mod_group [OF m] d by simp
qed

lemma librs_entries_written_aux:
  assumes doc: "split_nl content = pre @ [start] @ ours @ [sep] @ theirs @ [fin] @ post"
    and m: "prefix ''<<<<<<< '' start" "prefix ''======='' sep" "prefix ''>>>>>>> '' fin"
    and o: "\<forall>l \<in> set ours. \<not> marker_line l" "\<forall>l \<in> set theirs. \<not> marker_line l"
  shows "set (extract_pub_mods (lines_text ours)) \<union> set (extract_pub_mods (lines_text theirs))
         \<subseteq> set (split_nl (librs_resolved content))"
proof
  fix e
  assume e: "e \<in> set (extract_pub_mods (lines_text ours)) \<union> set (extract_pub_mods (lines_text theirs))"
  let ?st0 = "foldl scan_line scan_init pre"
  let ?st1 = "foldl scan_line ?st0 ([start] @ ours @ [sep] @ theirs @ [fin])"
  let ?st = "scan_lines (split_nl content)"
  have st: "?st = foldl scan_line ?st1 post"
    by (simp add: scan_lines_def doc)
  have "e \<in> set (all_pub_mods ?st1)"
    by (subst scan_region [OF m o]) (use e in simp)
  then have "e \<in> set (all_pub_mods ?st)"
    using scan_mods_mono [of ?st1 post] st by auto
  then have "e \<in> set (place_mods ?st)" by (simp add: set_place_mods)
  moreover have "e \<noteq> []" using e decl_nonempty by (auto simp: extract_pub_mods_set)
  ultimately have "e \<in> set (filter (\<lambda>l. l \<noteq> []) (place_mods ?st))" by simp
  then have "e \<in> set (filter (\<lambda>l. l \<noteq> []) (split_nl (librs_resolved content)))"
    by (simp only: librs_lines)
  then show "e \<in> set (split_nl (librs_resolved content))" by simp
qed

lemma librs_region_discarded_aux:
  assumes doc1: "split_nl c1 = pre @ [start] @ ours @ [sep] @ theirs @ [fin] @ post"
    and doc2: "split_nl c2 = pre @ [start, fin] @ post"
    and m: "prefix ''<<<<<<< '' start" "prefix ''======='' sep" "prefix ''>>>>>>> '' fin"
    and o: "\<forall>l \<in> set ours. \<not> marker_line l" "\<forall>l \<in> set theirs. \<not> marker_line l"
    and none: "extract_pub_mods (lines_text ours) = []" "extract_pub_mods (lines_text theirs) = []"
  shows "librs_resolved c1 = librs_resolved c2"
proof (rule librs_resolved_scan)
  let ?st0 = "foldl scan_line scan_init pre"
  have "foldl scan_line ?st0 ([start] @ ours @ [sep] @ theirs @ [fin]) = foldl scan_line ?st0 [start, fin]"
    by (simp only: scan_region [OF m o] scan_empty_region [OF m(1,3)] none extract_pub_mods_empty
          set_update_Nil)
  then show "scan_lines (split_nl c1) = scan_lines (split_nl c2)"
    by (simp add: scan_lines_def doc1 doc2)
qed

subsection \<open>The matcher and the language of a pattern\<close>

lemma star_greedy_sound:
  "star_greedy P cs s k = Some y \<Longrightarrow> \<exists>m r. s = m @ r \<and> list_all P m \<and> k cs r = Some y"
proof (induction s)
  case Nil
  then show ?case by (auto simp: star_greedy.simps)
next
  case (Cons c s)
  show ?case
  proof (cases "P c \<and> star_greedy P cs s k = Some y")
    case True
    then obtain m r where "s = m @ r" "list_all P m" "k cs r = Some y" using Cons.IH by blast
    then have "c # s = (c # m) @ r \<and> list_all P (c # m) \<and> k cs r = Some y" using True by simp
    then show ?thesis by blast
  next
    case False
    then have "k cs (c # s) = Some y"
      using Cons.prems by (auto simp: star_greedy.simps split: if_splits option.splits)
    then have "c # s = [] @ (c # s) \<and> list_all P [] \<and> k cs (c # s) = Some y" by simp
    then show ?thesis by blast
  qed
qed

lemma star_lazy_sound:
  "star_lazy P cs s k = Some y \<Longrightarrow> \<exists>m r. s = m @ r \<and> list_all P m \<and> k cs r = Some y"
proof (induction s)
  case Nil
  then show ?case by (auto simp: star_lazy.simps)
next
  case (Cons c s)
  show ?case
  proof (cases "k cs (c # s) = Some y")
    case True
    then have "c # s = [] @ (c # s) \<and> list_all P [] \<and> k cs (c # s) = Some y" by simp
    then show ?thesis by blast
  next
    case False
    then have "P c \<and> star_lazy P cs s k = Some y"
      using Cons.prems by (auto simp: star_lazy.simps split: if_splits option.splits)
    then obtain m r where "s = m @ r" "list_all P m" "k cs r = Some y" "P c" using Cons.IH by blast
    then have "c # s = (c # m) @ r \<and> list_all P (c # m) \<and> k cs r = Some y" by simp
    then show ?thesis by blast
  qed
qed

lemma rx_match_sound:
  "rx_match X cs s k = Some y \<Longrightarrow> \<exists>m r cs'. s = m @ r \<and> m \<in> lang X \<and> k cs' r = Some y"
proof (induction X arbitrary: cs s k y)
  case (Lit l)
  then obtain r where "s = l @ r" "k cs r = Some y"
    by (auto simp: strip_prefix_Some split: option.splits)
  then have "s = l @ r \<and> l \<in> lang (Lit l) \<and> k cs r = Some y" by simp
  then show ?case by blast
next
  case (Star P)
  then have "star_greedy P cs s k = Some y" by simp
  from star_greedy_sound [OF this] show ?case by auto
next
  case (Plus P)
  from Plus obtain c s' where s: "s = c # s'" "P c" "star_greedy P cs s' k = Some y"
    by (auto split: list.splits if_splits)
  from star_greedy_sound [OF s(3)] obtain m r where "s' = m @ r" "list_all P m" "k cs r = Some y"
    by blast
  then have "s = (c # m) @ r \<and> c # m \<in> lang (Plus P) \<and> k cs r = Some y" using s by simp
  then show ?case by blast
next
  case (Lazy P)
  then have "star_lazy P cs s k = Some y" by simp
  from star_lazy_sound [OF this] show ?case by auto
next
  case (Seq a b)
  from Seq.prems have "rx_match a cs s (\<lambda>cs' s'. rx_match b cs' s' k) = Some y" by simp
  from Seq.IH(1) [OF this] obtain m1 r1 cs1 where
    1: "s = m1 @ r1" "m1 \<in> lang a" "rx_match b cs1 r1 k = Some y"
    by blast
  from Seq.IH(2) [OF 1(3)] obtain m2 r2 cs2 where 2: "r1 = m2 @ r2" "m2 \<in> lang b" "k cs2 r2 = Some y"
    by blast
  have "s = (m1 @ m2) @ r2 \<and> m1 @ m2 \<in> lang (Seq a b) \<and> k cs2 r2 = Some y"
    using 1 2 by auto
  then show ?case by blast
next
  case (Opt a)
  show ?case
  proof (cases "rx_match a cs s k = Some y")
    case True
    from Opt.IH [OF this] obtain m r cs' where "s = m @ r" "m \<in> lang a" "k cs' r = Some y" by blast
    then have "s = m @ r \<and> m \<in> lang (Opt a) \<and> k cs' r = Some y" by simp
    then show ?thesis by blast
  next
    case False
    then have "k cs s = Some y" using Opt.prems by (auto split: option.splits)
    then have "s = [] @ s \<and> [] \<in> lang (Opt a) \<and> k cs s = Some y" by simp
    then show ?thesis by blast
  qed
next
  case (Grp n a)
  from Grp.prems have "rx_match a cs s (\<lambda>cs' s'. k ((n, take (length s - length s') s) # cs') s') = Some y"
    by simp
  from Grp.IH [OF this] obtain m r cs' where
    "s = m @ r" "m \<in> lang a" "k ((n, take (length s - length r) s) # cs') r = Some y" by blast
  then have "s = m @ r \<and> m \<in> lang (Grp n a) \<and> k ((n, take (length s - length r) s) # cs') r = Some y"
    by simp
  then show ?case by blast
qed

lemma star_greedy_complete:
  "list_all P m \<Longrightarrow> k cs r \<noteq> None \<Longrightarrow> star_greedy P cs (m @ r) k \<noteq> None"
proof (induction m)
  case Nil
  then show ?case by (cases r) (auto simp: star_greedy.simps split: option.splits)
next
  case (Cons c m)
  then show ?case by (auto simp: star_greedy.simps split: option.splits)
qed

lemma star_lazy_complete:
  "list_all P m \<Longrightarrow> k cs r \<noteq> None \<Longrightarrow> star_lazy P cs (m @ r) k \<noteq> None"
proof (induction m)
  case Nil
  then show ?case by (cases r) (auto simp: star_lazy.simps split: option.splits)
next
  case (Cons c m)
  then show ?case by (auto simp: star_lazy.simps split: option.splits)
qed

lemma rx_match_complete:
  "m \<in> lang X \<Longrightarrow> (\<And>cs'. k cs' r \<noteq> None) \<Longrightarrow> rx_match X cs (m @ r) k \<noteq> None"
proof (induction X arbitrary: cs m r k)
  case (Lit l)
  then show ?case by simp
next
  case (Star P)
  then have "list_all P m" "k cs r \<noteq> None" by simp_all
  then show ?case using star_greedy_complete [of P m k cs r] by simp
next
  case (Plus P)
  then obtain c m' where m: "m = c # m'" "P c" "list_all P m'" by (cases m) auto
  have "k cs r \<noteq> None" using Plus.prems(2) by simp
  then show ?case using star_greedy_complete [of P m' k cs r] m by simp
next
  case (Lazy P)
  then have "list_all P m" "k cs r \<noteq> None" by simp_all
  then show ?case using star_lazy_complete [of P m k cs r] by simp
next
  case (Seq a b)
  then obtain u v where uv: "m = u @ v" "u \<in> lang a" "v \<in> lang b" by auto
  have "rx_match b cs' (v @ r) k \<noteq> None" for cs'
    by (rule Seq.IH(2) [OF uv(3)]) (rule Seq.prems(2))
  then have "rx_match a cs (u @ (v @ r)) (\<lambda>cs' s'. rx_match b cs' s' k) \<noteq> None"
    by (rule Seq.IH(1) [OF uv(2)])
  then show ?case by (simp add: uv(1))
next
  case (Opt a)
  show ?case
  proof (cases "m = []")
    case True
    then show ?thesis using Opt.prems(2) by (auto split: option.splits)
  next
    case False
    then have "m \<in> lang a" using Opt.prems(1) by simp
    then have "rx_match a cs (m @ r) k \<noteq> None" by (rule Opt.IH) (rule Opt.prems(2))
    then show ?thesis by (auto split: option.splits)
  qed
next
  case (Grp n a)
  have "m \<in> lang a" using Grp.prems(1) by simp
  then have "rx_match a cs (m @ r) (\<lambda>cs' s'. k ((n, take (length (m @ r) - length s') (m @ r)) # cs') s') \<noteq> None"
    by (rule Grp.IH) (rule Grp.prems(2))
  then show ?case by simp
qed

lemma match_at_lang:
  "match_at p s = Some (cs, r) \<Longrightarrow> \<exists>m. s = m @ r \<and> m \<in> lang p"
proof -
  assume "match_at p s = Some (cs, r)"
  then have "rx_match (Grp 0 p) [] s (\<lambda>cs r. Some (cs, r)) = Some (cs, r)" by (simp add: match_at_def)
  from rx_match_sound [OF this] obtain m r' cs' where
    "s = m @ r'" "m \<in> lang (Grp 0 p)" "Some (cs', r') = Some (cs, r)" by blast
  then show ?thesis by auto
qed

lemma match_at_complete: "m \<in> lang p \<Longrightarrow> match_at p (m @ r) \<noteq> None"
  unfolding match_at_def by (rule rx_match_complete) simp_all

subsection \<open>Declarations\<close>

lemma strip_fixed:
  "t = [] \<or> (\<not> is_space (hd t) \<and> \<not> is_space (last t)) \<Longrightarrow> strip t = t"
proof (cases t)
  case Nil
  then show ?thesis by (simp add: strip_def)
next
  case (Cons c u)
  assume "t = [] \<or> (\<not> is_space (hd t) \<and> \<not> is_space (last t))"
  then have h: "\<not> is_space c" "\<not> is_space (last t)" using Cons by auto
  have 1: "dropWhile is_space t = t" using h Cons by simp
  have "rev t \<noteq> []" "hd (rev t) = last t" using Cons by (simp_all add: hd_rev)
  then have 2: "dropWhile is_space (rev t) = rev t" using h(2) by (simp add: dropWhile_eq_self_iff)
  show ?thesis by (simp add: strip_def 1 2)
qed

lemma strip_shape:
  "strip l = [] \<or> (\<not> is_space (hd (strip l)) \<and> \<not> is_space (last (strip l)))"
proof -
  let ?a = "dropWhile is_space l"
  let ?b = "dropWhile is_space (rev ?a)"
  have s: "strip l = rev ?b" by (simp add: strip_def)
  show ?thesis
  proof (cases "?b = []")
    case True
    then show ?thesis using s by simp
  next
    case False
    then have hb: "\<not> is_space (hd ?b)" using hd_dropWhile by blast
    have "suffix ?b (rev ?a)" by (rule suffix_dropWhile)
    then obtain p where p: "rev ?a = p @ ?b" by (auto simp: suffix_def)
    then have "last ?b = last (rev ?a)" using False by (metis last_appendR)
    also have "\<dots> = hd ?a" by (metis last_rev)
    finally have lb: "last ?b = hd ?a" .
    have "?a \<noteq> []"
    proof
      assume a: "?a = []"
      have "dropWhile is_space (rev ?a) = dropWhile is_space (rev [])" by (simp only: a)
      then have "?b = []" by simp
      then show False using False by simp
    qed
    then have "\<not> is_space (hd ?a)" using hd_dropWhile by blast
    then have "\<not> is_space (hd (rev ?b))" using lb False by (simp add: hd_rev)
    moreover have "\<not> is_space (last (rev ?b))" using hb False by (simp add: last_rev)
    ultimately show ?thesis using s by simp
  qed
qed

lemma strip_strip [simp]: "strip (strip l) = strip l"
  using strip_shape [of l] by (rule strip_fixed)

lemma lang_pub_mod: "lang pub_mod_rx = lang pub_mod_line_rx"
  by (simp add: pub_mod_rx_def pub_mod_line_rx_def)

lemma lang_pub_mod_shape:
  assumes "m \<in> lang pub_mod_line_rx"
  shows "prefix ''pub'' m \<and> m \<noteq> [] \<and> last m = CHR '';''"
proof -
  from assms obtain u where "m = ''pub'' @ u @ '';''"
    by (auto simp: pub_mod_line_rx_def) 
  then show ?thesis by auto
qed

lemma declaration_text:
  assumes "m \<in> lang pub_mod_line_rx"
  shows "strip m = m" "is_declaration m" "\<not> marker_line m" "m \<noteq> []"
proof -
  have sh: "prefix ''pub'' m" "m \<noteq> []" "last m = CHR '';''" using lang_pub_mod_shape [OF assms] by auto
  then have "hd m = CHR ''p''" by (cases m) auto
  then show s: "strip m = m" using sh by (intro strip_fixed) (simp add: is_space_def)
  show "is_declaration m"
    using match_at_complete [OF assms, of "[]"] by (simp add: is_declaration_def s)
  show "\<not> marker_line m" using sh(1) by (cases m) (auto simp: marker_line_def)
  show "m \<noteq> []" by (rule sh(2))
qed

lemma decl_of_lang: "decl_of line = Some d \<Longrightarrow> d \<in> lang pub_mod_line_rx"
proof -
  assume "decl_of line = Some d"
  then obtain cs r where m: "match_at pub_mod_rx (strip line) = Some (cs, r)" and d: "d = grp 1 cs"
    by (auto simp: decl_of_def split: option.splits)
  from match_at_lang [OF m] obtain t where t: "strip line = t @ r" "t \<in> lang pub_mod_rx" by blast
  have "d = take (length (strip line) - length r) (strip line)" using pub_mod_group [OF m] d by simp
  then have "d = t" by (simp add: t(1))
  then show ?thesis using t(2) lang_pub_mod by simp
qed

lemma is_declaration_strip:
  assumes "is_declaration l"
  shows "strip (strip l) = strip l" "is_declaration (strip l)" "\<not> marker_line (strip l)" "strip l \<noteq> []"
proof -
  show "strip (strip l) = strip l" by simp
  show "is_declaration (strip l)" using assms by (simp add: is_declaration_def)
  from assms obtain cs r where "match_at pub_mod_line_rx (strip l) = Some (cs, r)"
    by (auto simp: is_declaration_def)
  from match_at_lang [OF this] obtain t where "strip l = t @ r" "t \<in> lang pub_mod_line_rx" by blast
  then have "prefix ''pub'' (strip l)" using lang_pub_mod_shape [of t] by (auto simp: prefix_def)
  then show "\<not> marker_line (strip l)" "strip l \<noteq> []"
    by (cases "strip l"; auto simp: marker_line_def)+
qed

lemma extract_decl_text: "d \<in> set (extract_pub_mods block) \<Longrightarrow> decl_text d"
proof -
  assume "d \<in> set (extract_pub_mods block)"
  then obtain line where "decl_of line = Some d" by (auto simp: extract_pub_mods_set)
  then have "d \<in> lang pub_mod_line_rx" by (rule decl_of_lang)
  from declaration_text [OF this] show ?thesis by (simp add: decl_text_def)
qed

lemma scan_line_decl_text:
  assumes "\<forall>m \<in> set (all_pub_mods st). decl_text m"
  shows "\<forall>m \<in> set (all_pub_mods (scan_line st l)). decl_text m"
proof -
  have "decl_text (strip l)" if "match_at pub_mod_line_rx (strip l) \<noteq> None"
    using is_declaration_strip [of l] that by (simp add: decl_text_def is_declaration_def)
  then show ?thesis using assms extract_decl_text
    by (auto simp: scan_line_def Let_def)
qed

lemma scan_decl_text:
  "\<forall>m \<in> set (all_pub_mods st). decl_text m
   \<Longrightarrow> \<forall>m \<in> set (all_pub_mods (foldl scan_line st ls)). decl_text m"
proof (induction ls arbitrary: st)
  case Nil
  then show ?case by simp
next
  case (Cons l ls)
  have "\<forall>m \<in> set (all_pub_mods (scan_line st l)). decl_text m"
    using Cons.prems by (rule scan_line_decl_text)
  from Cons.IH [OF this] show ?case by simp
qed

lemma scan_line_distinct: "distinct (all_pub_mods st) \<Longrightarrow> distinct (all_pub_mods (scan_line st l))"
  by (auto simp: scan_line_def Let_def)

lemma scan_distinct:
  "distinct (all_pub_mods st) \<Longrightarrow> distinct (all_pub_mods (foldl scan_line st ls))"
  by (induction ls arbitrary: st) (auto simp: scan_line_distinct)

subsection \<open>Running the declaration tool on its own output\<close>

inductive_cases db_NilE: "drops_blank [] ms"
inductive_cases db_ConsE: "drops_blank (l # ls) ms"

lemma db_refl: "drops_blank ls ls"
  by (induction ls) (auto intro: drops_blank.intros)

lemma db_drop_head_aux: "drops_blank ls zs \<Longrightarrow> zs = [] # ms \<Longrightarrow> drops_blank ls ms"
  by (induction arbitrary: ms rule: drops_blank.induct) (auto intro: drops_blank.intros)

lemma db_drop_head: "drops_blank ls ([] # ms) \<Longrightarrow> drops_blank ls ms"
  using db_drop_head_aux by blast

lemma db_split_squeeze: "drops_blank (split_nl s) (split_nl (squeeze n s))"
proof (induction s arbitrary: n)
  case Nil
  then show ?case by (auto intro: drops_blank.intros)
next
  case (Cons c s)
  show ?case
  proof (cases "c = NL")
    case True
    then show ?thesis using Cons by (auto intro: drops_blank.intros)
  next
    case False
    obtain a as where a: "split_nl (squeeze 0 s) = a # as" by (cases "split_nl (squeeze 0 s)") auto
    obtain b bs where b: "split_nl s = b # bs" by (cases "split_nl s") auto
    have h: "a = b" using hd_split_squeeze [of 0 s] a b by simp
    have "drops_blank (b # bs) (b # as)" using Cons [of 0] a b h by simp
    then have "drops_blank bs as"
      by (rule db_ConsE) (auto intro: db_drop_head)
    then have "drops_blank ((c # b) # bs) ((c # b) # as)" by (rule db_Keep)
    then show ?thesis using False a b h by simp
  qed
qed

lemma db_append_split:
  "drops_blank (X @ W) Z \<Longrightarrow> \<exists>A Z'. Z = A @ Z' \<and> drops_blank X A \<and> drops_blank W Z'"
proof (induction X arbitrary: Z)
  case Nil
  then have "Z = [] @ Z \<and> drops_blank [] [] \<and> drops_blank W Z" by (auto intro: drops_blank.intros)
  then show ?case by blast
next
  case (Cons x X)
  from Cons.prems have "drops_blank (x # (X @ W)) Z" by simp
  then show ?case
  proof (rule db_ConsE)
    fix ms assume z: "Z = x # ms" and d: "drops_blank (X @ W) ms"
    from Cons.IH [OF d] obtain A Z' where "ms = A @ Z'" "drops_blank X A" "drops_blank W Z'" by blast
    then have "Z = (x # A) @ Z' \<and> drops_blank (x # X) (x # A) \<and> drops_blank W Z'"
      using z by (auto intro: drops_blank.intros)
    then show ?thesis by blast
  next
    assume x: "x = []" and d: "drops_blank (X @ W) Z"
    from Cons.IH [OF d] obtain A Z' where "Z = A @ Z'" "drops_blank X A" "drops_blank W Z'" by blast
    then have "Z = A @ Z' \<and> drops_blank (x # X) A \<and> drops_blank W Z'"
      using x by (auto intro: drops_blank.intros)
    then show ?thesis by blast
  qed
qed

lemma db_nonempty_prefix:
  "drops_blank (M @ Y) Z \<Longrightarrow> \<forall>m \<in> set M. m \<noteq> [] \<Longrightarrow> \<exists>B. Z = M @ B \<and> drops_blank Y B"
proof (induction M arbitrary: Z)
  case Nil
  then show ?case by simp
next
  case (Cons m M)
  from Cons.prems(1) have "drops_blank (m # (M @ Y)) Z" by simp
  then show ?case
  proof (rule db_ConsE)
    fix ms assume z: "Z = m # ms" and d: "drops_blank (M @ Y) ms"
    from Cons.IH [OF d] Cons.prems(2) obtain B where "ms = M @ B" "drops_blank Y B" by auto
    then show ?thesis using z by simp
  next
    assume "m = []"
    then show ?thesis using Cons.prems(2) by simp
  qed
qed

lemma db_set: "drops_blank X A \<Longrightarrow> set A \<subseteq> set X"
  by (induction rule: drops_blank.induct) auto

subsection \<open>The scan of a text without markers\<close>

lemma scan_plain:
  "\<not> in_conflict st \<Longrightarrow> \<forall>l \<in> set A. plain_line l \<Longrightarrow>
   foldl scan_line st A = st\<lparr>resolved_lines := resolved_lines st @ A\<rparr>"
proof (induction A arbitrary: st)
  case Nil
  then show ?case by simp
next
  case (Cons l A)
  have 1: "scan_line st l = st\<lparr>resolved_lines := resolved_lines st @ [l]\<rparr>"
    using Cons.prems by (simp add: scan_line_def plain_line_def marker_line_def is_declaration_def)
  have "foldl scan_line (scan_line st l) A
        = (scan_line st l)\<lparr>resolved_lines := resolved_lines (scan_line st l) @ A\<rparr>"
    by (rule Cons.IH) (use Cons.prems 1 in simp_all)
  then show ?case by (simp add: 1)
qed

lemma mark_insertion_simps [simp]:
  "mark_insertion (st\<lparr>all_pub_mods := x\<rparr>) = mark_insertion st"
  "mark_insertion (st\<lparr>pub_mods_insertion_point := mark_insertion st\<rparr>) = mark_insertion st"
  "mark_insertion (st\<lparr>all_pub_mods := x, pub_mods_insertion_point := mark_insertion st\<rparr>)
     = mark_insertion st"
  by (simp_all add: mark_insertion_def split: option.splits)

lemma scan_decls:
  "\<not> in_conflict st \<Longrightarrow> \<forall>m \<in> set M. decl_text m \<Longrightarrow> M \<noteq> [] \<Longrightarrow>
   foldl scan_line st M = st\<lparr>all_pub_mods := set_update (all_pub_mods st) M,
                                pub_mods_insertion_point := mark_insertion st\<rparr>"
proof (induction M arbitrary: st)
  case Nil
  then show ?case by simp
next
  case (Cons m M)
  have f: "strip m = m" "is_declaration m" "\<not> marker_line m"
    using Cons.prems(2) by (simp_all add: decl_text_def)
  then have "match_at pub_mod_line_rx m \<noteq> None" by (simp add: is_declaration_def)
  then have 1: "scan_line st m = st\<lparr>all_pub_mods := set_add m (all_pub_mods st),
                               pub_mods_insertion_point := mark_insertion st\<rparr>"
    using Cons.prems(1) f(1,3) by (simp add: scan_line_def marker_line_def)
  show ?case
  proof (cases "M = []")
    case True
    then show ?thesis by (simp add: 1 set_update_def)
  next
    case False
    have "foldl scan_line (scan_line st m) M
          = (scan_line st m)\<lparr>all_pub_mods := set_update (all_pub_mods (scan_line st m)) M,
                              pub_mods_insertion_point := mark_insertion (scan_line st m)\<rparr>"
      by (rule Cons.IH) (use Cons.prems 1 False in simp_all)
    then show ?thesis by (simp add: 1 set_update_def)
  qed
qed

lemma set_update_distinct: "distinct M \<Longrightarrow> set_update [] M = M"
proof -
  have "distinct (xs @ M) \<Longrightarrow> foldl (\<lambda>a y. set_add y a) xs M = xs @ M" for xs
    by (induction M arbitrary: xs) (auto simp: set_add_def)
  then show "distinct M \<Longrightarrow> set_update [] M = M" unfolding set_update_def by force
qed

lemma scan_structured:
  assumes A: "\<forall>l \<in> set A. plain_line l" and B: "\<forall>l \<in> set B. plain_line l"
    and M: "\<forall>m \<in> set M. decl_text m" "distinct M" "sorted (map extract_mod_name M)"
  shows "place_mods (scan_lines (A @ M @ B)) = A @ M @ B"
proof (cases "M = []")
  case True
  have "\<forall>l \<in> set (A @ B). plain_line l" using A B by auto
  then have "scan_lines (A @ B) = scan_init\<lparr>resolved_lines := A @ B\<rparr>"
    unfolding scan_lines_def using scan_plain [of scan_init "A @ B"] by (simp add: scan_init_def)
  then show ?thesis using True by (simp add: place_mods_def sorted_mods_of_def scan_init_def)
next
  case False
  let ?s1 = "scan_init\<lparr>resolved_lines := A\<rparr>"
  let ?s2 = "?s1\<lparr>all_pub_mods := M, pub_mods_insertion_point := Some (length A)\<rparr>"
  let ?s3 = "?s2\<lparr>resolved_lines := A @ B\<rparr>"
  have 1: "foldl scan_line scan_init A = ?s1"
    using scan_plain [of scan_init A] A by (simp add: scan_init_def)
  have 2: "foldl scan_line ?s1 M = ?s2"
    using scan_decls [of ?s1 M] M False
    by (simp add: scan_init_def set_update_distinct mark_insertion_def)
  have 3: "foldl scan_line ?s2 B = ?s3"
    using scan_plain [of ?s2 B] B by (simp add: scan_init_def)
  have "scan_lines (A @ M @ B) = ?s3" by (simp add: scan_lines_def 1 2 3)
  moreover have "sort_key extract_mod_name M = M" using M(3) by (rule sort_key_id_if_sorted)
  ultimately show ?thesis using False
    by (simp add: place_mods_def sorted_mods_of_def insert_all_eq)
qed

lemma outside_not_marker: "l \<in> set (outside b ls) \<Longrightarrow> \<not> marker_line l"
  by (induction ls arbitrary: b) (auto simp: marker_line_def split: if_splits)

lemma resolved_plain: "l \<in> set (resolved_lines (scan_lines ls)) \<Longrightarrow> plain_line l"
  using outside_not_marker by (auto simp: scan_lines_outside outside_lines_def plain_line_def)

lemma blank_plain: "plain_line []"
  by (simp add: plain_line_def marker_line_def is_declaration_def match_at_def pub_mod_line_rx_def
        strip_def)

lemma run_ok_snoc: "run_ok n r \<Longrightarrow> r \<noteq> [] \<Longrightarrow> last r \<noteq> NL \<Longrightarrow> run_ok n (r @ [NL])"
  by (induction r arbitrary: n) (auto split: if_splits)

lemma sorted_mods_facts:
  "\<forall>m \<in> set (sorted_mods_of (scan_lines ls)). decl_text m"
  "distinct (sorted_mods_of (scan_lines ls))"
  "sorted (map extract_mod_name (sorted_mods_of (scan_lines ls)))"
proof -
  have "\<forall>m \<in> set (all_pub_mods (scan_lines ls)). decl_text m"
    unfolding scan_lines_def by (rule scan_decl_text) (simp add: scan_init_def)
  then show "\<forall>m \<in> set (sorted_mods_of (scan_lines ls)). decl_text m" by simp
  have "distinct (all_pub_mods (scan_lines ls))"
    unfolding scan_lines_def by (rule scan_distinct) (simp add: scan_init_def)
  then show "distinct (sorted_mods_of (scan_lines ls))" by (simp add: sorted_mods_of_def)
  show "sorted (map extract_mod_name (sorted_mods_of (scan_lines ls)))"
    by (simp add: sorted_mods_of_def)
qed

lemma placed_lines_shape:
  "\<exists>X Y. split_nl (join_nl (place_mods (scan_lines ls))) = X @ sorted_mods_of (scan_lines ls) @ Y
         \<and> (\<forall>l \<in> set X \<union> set Y. plain_line l)"
  if nl: "\<forall>l \<in> set (place_mods (scan_lines ls)). NL \<notin> set l"
proof -
  let ?st = "scan_lines ls"
  let ?P = "place_mods ?st" and ?M = "sorted_mods_of ?st" and ?R = "resolved_lines ?st"
  have R: "\<forall>l \<in> set ?R. plain_line l" using resolved_plain by blast
  have "\<exists>X Y. ?P = X @ ?M @ Y \<and> (\<forall>l \<in> set X \<union> set Y. plain_line l)"
  proof -
    from place_mods_cases [of ?st] show ?thesis
    proof
      assume "?P = ?R \<and> all_pub_mods ?st = []"
      then have "?P = ?R @ ?M @ [] \<and> (\<forall>l \<in> set ?R \<union> set []. plain_line l)"
        using R by (simp add: sorted_mods_of_def)
      then show ?thesis by blast
    next
      assume "\<exists>at. ?P = take at ?R @ ?M @ drop at ?R"
      then obtain at where "?P = take at ?R @ ?M @ drop at ?R" by blast
      moreover have "\<forall>l \<in> set (take at ?R) \<union> set (drop at ?R). plain_line l"
        using R by (meson Un_iff in_set_dropD in_set_takeD)
      ultimately show ?thesis by blast
    qed
  qed
  then obtain X Y where XY: "?P = X @ ?M @ Y" "\<forall>l \<in> set X \<union> set Y. plain_line l" by blast
  show ?thesis
  proof (cases "?P = []")
    case True
    then have "?M = []" using XY(1) by simp
    then have "split_nl (join_nl ?P) = [[]] @ ?M @ [] \<and> (\<forall>l \<in> set [[]] \<union> set []. plain_line l)"
      using True by (simp add: blank_plain)
    then show ?thesis by blast
  next
    case False
    then have "split_nl (join_nl ?P) = ?P" using nl by (simp add: split_join_nl)
    then show ?thesis using XY by metis
  qed
qed

lemma librs_idempotent: "librs_resolved (librs_resolved content) = librs_resolved content"
proof -
  let ?st = "scan_lines (split_nl content)"
  let ?P = "place_mods ?st" and ?M = "sorted_mods_of ?st"
  let ?r = "collapse_blank (join_nl ?P)"
  let ?out = "librs_resolved content"
  have r: "?r = squeeze 0 (join_nl ?P)" by (simp add: collapse_blank_squeeze)
  have out: "?out = (if ends_nl ?r then ?r else ?r @ [NL])" by (simp add: librs_resolved_def Let_def)
  have ok: "run_ok 0 ?out"
  proof (cases "?r = []")
    case True
    then show ?thesis using out by (simp add: ends_nl_def)
  next
    case False
    have "run_ok 0 ?r" by (simp add: r squeeze_run_ok)
    then show ?thesis using out False run_ok_snoc [of 0 ?r] by (auto simp: ends_nl_def)
  qed
  have e: "ends_nl ?out" using out by (auto simp: ends_nl_def)
  obtain X Y where XY: "split_nl (join_nl ?P) = X @ ?M @ Y" "\<forall>l \<in> set X \<union> set Y. plain_line l"
    using placed_lines_shape [of "split_nl content"] place_mods_no_newline by blast
  have "drops_blank (X @ ?M @ Y) (split_nl ?r)"
    using db_split_squeeze [of "join_nl ?P" 0] by (simp add: r XY(1))
  from db_append_split [OF this] obtain A Z where
    AZ: "split_nl ?r = A @ Z" "drops_blank X A" "drops_blank (?M @ Y) Z" by blast
  have Mne: "\<forall>m \<in> set ?M. m \<noteq> []"
    using sorted_mods_facts(1) [of "split_nl content"] by (auto simp: decl_text_def)
  from db_nonempty_prefix [OF AZ(3) Mne] obtain B where B: "Z = ?M @ B" "drops_blank Y B" by blast
  have pA: "\<forall>l \<in> set A. plain_line l" using db_set [OF AZ(2)] XY(2) by auto
  have pB: "\<forall>l \<in> set B. plain_line l" using db_set [OF B(2)] XY(2) by auto
  obtain B' where B': "split_nl ?out = A @ ?M @ B'" "\<forall>l \<in> set B'. plain_line l"
  proof (cases "ends_nl ?r")
    case True
    then have "split_nl ?out = A @ ?M @ B" using out AZ(1) B(1) by simp
    then show ?thesis using pB that by blast
  next
    case False
    then have "split_nl ?out = A @ ?M @ (B @ [[]])" using out AZ(1) B(1) by (simp add: split_nl_snoc_nl)
    moreover have "\<forall>l \<in> set (B @ [[]]). plain_line l" using pB blank_plain by auto
    ultimately show ?thesis using that by blast
  qed
  have "place_mods (scan_lines (A @ ?M @ B')) = A @ ?M @ B'"
    by (rule scan_structured [OF pA B'(2) sorted_mods_facts])
  then have "place_mods (scan_lines (split_nl ?out)) = split_nl ?out" by (simp add: B'(1))
  then have "librs_resolved ?out = (let r' = collapse_blank ?out in if \<not> ends_nl r' then r' @ [NL] else r')"
    unfolding librs_resolved_def [of ?out] by simp
  moreover have "collapse_blank ?out = ?out" using ok by (simp add: collapse_blank_squeeze run_ok_squeeze_id)
  ultimately show ?thesis using e by (simp add: Let_def)
qed


section \<open>The manifest tool on one region without members\<close>

subsection \<open>Texts made of lines\<close>

lemma prefix_before_newline:
  "NL \<notin> set p \<Longrightarrow> prefix p (a @ NL # t) \<Longrightarrow> prefix p a"
proof -
  assume n: "NL \<notin> set p" and "prefix p (a @ NL # t)"
  then have "prefix p a \<or> (\<exists>us. p = a @ us \<and> prefix us (NL # t))" by (simp add: prefix_append)
  then show "prefix p a"
  proof
    assume "prefix p a" then show ?thesis .
  next
    assume "\<exists>us. p = a @ us \<and> prefix us (NL # t)"
    then obtain us where us: "p = a @ us" "prefix us (NL # t)" by blast
    then have "us = []" using n by (cases us) auto
    then show ?thesis using us by simp
  qed
qed

lemma suffix_lines_text_Cons:
  "suffix w (lines_text (l # ls)) \<Longrightarrow>
   suffix w (lines_text ls) \<or> (\<exists>a. suffix a l \<and> w = a @ NL # lines_text ls)"
proof -
  assume "suffix w (lines_text (l # ls))"
  then have "suffix w ((l @ [NL]) @ lines_text ls)" by (simp add: lines_text_def)
  then have "suffix w (lines_text ls) \<or> (\<exists>zs. w = zs @ lines_text ls \<and> suffix zs (l @ [NL]))"
    by (simp only: suffix_append)
  then show ?thesis
  proof
    assume "suffix w (lines_text ls)" then show ?thesis by simp
  next
    assume "\<exists>zs. w = zs @ lines_text ls \<and> suffix zs (l @ [NL])"
    then obtain zs where zs: "w = zs @ lines_text ls" "suffix zs (l @ [NL])" by blast
    show ?thesis
    proof (cases "zs = []")
      case True
      then show ?thesis using zs by simp
    next
      case False
      then obtain a where "zs = a @ [NL]" "suffix a l"
        using zs(2) by (metis snoc_suffix_snoc rev_exhaust)
      then show ?thesis using zs(1) by auto
    qed
  qed
qed

text \<open>
  A text without newline that occurs in no line does not start at any place of the text
  of the lines, whatever follows that text.
\<close>

lemma lines_no_prefix:
  assumes "\<forall>l \<in> set ls. \<not> contains p l" "p \<noteq> []" "NL \<notin> set p" "w \<noteq> []"
    "suffix w (lines_text ls)"
  shows "\<not> prefix p (w @ rest)"
  using assms(1,4,5)
proof (induction ls)
  case Nil
  then show ?case by (simp add: lines_text_def)
next
  case (Cons l ls)
  from suffix_lines_text_Cons [OF Cons.prems(3)] show ?case
  proof
    assume "suffix w (lines_text ls)"
    then show ?thesis using Cons by simp
  next
    assume "\<exists>a. suffix a l \<and> w = a @ NL # lines_text ls"
    then obtain a where a: "suffix a l" "w = a @ NL # lines_text ls" by blast
    show ?thesis
    proof
      assume "prefix p (w @ rest)"
      then have "prefix p (a @ NL # (lines_text ls @ rest))" by (simp add: a(2))
      then have "prefix p a" using assms(3) by (rule prefix_before_newline [rotated])
      then have "contains p l" using a(1) by (auto simp: contains_iff)
      then show False using Cons.prems(1) by simp
    qed
  qed
qed

lemma lines_not_contains:
  assumes "\<forall>l \<in> set ls. \<not> contains p l" "p \<noteq> []" "NL \<notin> set p"
  shows "\<not> contains p (lines_text ls)"
proof
  assume "contains p (lines_text ls)"
  then obtain w where w: "suffix w (lines_text ls)" "prefix p w" by (auto simp: contains_iff)
  then have "w \<noteq> []" using assms(2) by auto
  from lines_no_prefix [OF assms this w(1), of "[]"] w(2) show False by simp
qed

lemma first_newline_unique:
  "NL \<notin> set x \<Longrightarrow> NL \<notin> set y \<Longrightarrow> x @ NL # s = y @ NL # t \<Longrightarrow> x = y \<and> s = t"
proof (induction x arbitrary: y)
  case Nil
  then show ?case by (cases y) auto
next
  case (Cons a x)
  then show ?case by (cases y) auto
qed

text \<open>The separator line: where no line ends with it, it does not start inside the lines.\<close>

lemma lines_no_separator:
  assumes "\<forall>l \<in> set ls. NL \<notin> set l \<and> \<not> suffix q l" "NL \<notin> set q" "w \<noteq> []"
    "suffix w (lines_text ls)"
  shows "\<not> prefix (q @ [NL]) (w @ rest)"
  using assms(1,3,4)
proof (induction ls)
  case Nil
  then show ?case by (simp add: lines_text_def)
next
  case (Cons l ls)
  from suffix_lines_text_Cons [OF Cons.prems(3)] show ?case
  proof
    assume "suffix w (lines_text ls)"
    then show ?thesis using Cons by simp
  next
    assume "\<exists>a. suffix a l \<and> w = a @ NL # lines_text ls"
    then obtain a where a: "suffix a l" "w = a @ NL # lines_text ls" by blast
    have na: "NL \<notin> set a" using a(1) Cons.prems(1) by (auto simp: suffix_def)
    show ?thesis
    proof
      assume "prefix (q @ [NL]) (w @ rest)"
      then obtain t where "a @ NL # (lines_text ls @ rest) = q @ NL # t"
        by (auto simp: prefix_def a(2))
      from first_newline_unique [OF na assms(2) this] have "a = q" by simp
      then show False using a(1) Cons.prems(1) by simp
    qed
  qed
qed

lemma lines_text_append: "lines_text (xs @ ys) = lines_text xs @ lines_text ys"
  by (simp add: lines_text_def)

lemma lines_text_Cons: "lines_text (l # ls) = l @ NL # lines_text ls"
  by (simp add: lines_text_def)

lemma lines_text_Nil: "lines_text [] = []"
  by (simp add: lines_text_def)

subsection \<open>Matching the conflict patterns on a region\<close>

lemma lit_fail: "\<not> prefix p s \<Longrightarrow> rx_match (Lit p) cs s k = None"
  using strip_prefix_None [of p s] by simp

lemma dropWhile_line: "NL \<notin> set lab \<Longrightarrow> dropWhile (not_char NL) (lab @ NL # s) = NL # s"
  by (induction lab) (auto simp: not_char_def)

lemma head_match:
  "NL \<notin> set lab \<Longrightarrow>
   rx_match (Seq (Lit ''<<<<<<<'') (Seq (Star (not_char NL)) (Seq (Lit [NL]) R))) cs
     (''<<<<<<<'' @ lab @ NL # s) k
   = rx_match R cs s k"
proof -
  assume lab: "NL \<notin> set lab"
  let ?k = "\<lambda>cs' s'. rx_match (Seq (Lit [NL]) R) cs' s' k"
  have "star_greedy (not_char NL) cs (lab @ NL # s) ?k = ?k cs (dropWhile (not_char NL) (lab @ NL # s))"
    by (rule star_greedy_det) (simp add: not_char_def)
  then show ?thesis by (simp add: dropWhile_line [OF lab])
qed

lemma tail_match:
  "NL \<notin> set lab \<Longrightarrow> k cs rest = Some y \<Longrightarrow>
   rx_match (Seq (Lit ''>>>>>>>'') (Seq (Star (not_char NL)) (Opt (Lit [NL])))) cs
     (''>>>>>>>'' @ lab @ NL # rest) k
   = Some y"
proof -
  assume lab: "NL \<notin> set lab" and k: "k cs rest = Some y"
  let ?k = "\<lambda>cs' s'. rx_match (Opt (Lit [NL])) cs' s' k"
  have v: "?k cs (dropWhile (not_char NL) (lab @ NL # rest)) = Some y"
    using k by (simp add: dropWhile_line [OF lab])
  then have "star_greedy (not_char NL) cs (lab @ NL # rest) ?k = Some y"
    by (subst star_greedy_longest) simp_all
  then show ?thesis by simp
qed

lemma lazy_match:
  assumes "\<And>w. w \<noteq> [] \<Longrightarrow> suffix w T \<Longrightarrow> k cs (w @ s) = None" "k cs s = Some y"
  shows "rx_match (Lazy any_char) cs (T @ s) k = Some y"
proof -
  have "star_lazy any_char cs (T @ s) k = star_lazy any_char cs s k"
    by (rule star_lazy_skip) (simp_all add: assms(1))
  moreover have "star_lazy any_char cs s k = Some y"
    using assms(2) by (rule star_lazy_here)
  ultimately show ?thesis by simp
qed

lemma lazy_group_match:
  assumes "\<And>w c. w \<noteq> [] \<Longrightarrow> suffix w T \<Longrightarrow> k c (w @ s) = None" "k ((n, T) # cs) s = Some y"
  shows "rx_match (Grp n (Lazy any_char)) cs (T @ s) k = Some y"
proof -
  let ?k = "\<lambda>cs' s'. k ((n, take (length (T @ s) - length s') (T @ s)) # cs') s'"
  have "rx_match (Lazy any_char) cs (T @ s) ?k = Some y"
    by (rule lazy_match) (simp_all add: assms)
  then show ?thesis by simp
qed

text \<open>
  The second pass on one region: the text between the start line and the first
  separator line is group 1, and the match ends after the end line.
\<close>

lemma generic_match:
  assumes lab: "NL \<notin> set lab" "NL \<notin> set lab2"
    and t1: "\<And>w. w \<noteq> [] \<Longrightarrow> suffix w T1 \<Longrightarrow>
               \<not> prefix (''======='' @ [NL]) (w @ (''======='' @ [NL]) @ T2 @ ''>>>>>>>'' @ lab2 @ NL # rest)"
    and t2: "\<And>w. w \<noteq> [] \<Longrightarrow> suffix w T2 \<Longrightarrow> \<not> prefix ''>>>>>>>'' (w @ ''>>>>>>>'' @ lab2 @ NL # rest)"
  shows "\<exists>cs. match_at generic_conflict_pattern
                (''<<<<<<<'' @ lab @ NL # T1 @ (''======='' @ [NL]) @ T2 @ ''>>>>>>>'' @ lab2 @ NL # rest)
              = Some (cs, rest) \<and> grp 1 cs = T1"
proof -
  let ?S4 = "''>>>>>>>'' @ lab2 @ NL # rest"
  let ?S3 = "T2 @ ?S4"
  let ?S2 = "(''======='' @ [NL]) @ ?S3"
  let ?S1 = "T1 @ ?S2"
  let ?S = "''<<<<<<<'' @ lab @ NL # ?S1"
  let ?tail = "Seq (Lit ''>>>>>>>'') (Seq (Star (not_char NL)) (Opt (Lit [NL])))"
  define k0 :: "caps \<Rightarrow> string \<Rightarrow> (caps \<times> string) option"
    where "k0 = (\<lambda>cs' s'. Some ((0, take (length ?S - length s') ?S) # cs', s'))"
  define y where "y = ((0::nat, take (length ?S - length rest) ?S) # [(1, T1)], rest)"
  have a4: "rx_match ?tail [(1, T1)] ?S4 k0 = Some y"
    by (rule tail_match [OF lab(2)]) (simp add: k0_def y_def)
  have a3: "rx_match (Lazy any_char) [(1, T1)] ?S3 (\<lambda>cs' s'. rx_match ?tail cs' s' k0) = Some y"
  proof (rule lazy_match)
    fix w :: string assume "w \<noteq> []" "suffix w T2"
    from t2 [OF this] have "strip_prefix ''>>>>>>>'' (w @ ?S4) = None"
      by (simp only: strip_prefix_None not_False_eq_True)
    then show "rx_match ?tail [(1, T1)] (w @ ?S4) k0 = None"
      by (simp only: rx_match.simps option.case)
  qed (rule a4)
  let ?mid = "Seq (Lit (''======='' @ [NL])) (Seq (Lazy any_char) ?tail)"
  have a2: "rx_match ?mid [(1, T1)] ?S2 k0 = Some y"
    using a3 by (simp only: rx_match.simps strip_prefix_append option.case)
  have a1: "rx_match (Grp 1 (Lazy any_char)) [] ?S1 (\<lambda>cs' s'. rx_match ?mid cs' s' k0) = Some y"
  proof (rule lazy_group_match)
    fix w :: string and c :: caps assume "w \<noteq> []" "suffix w T1"
    from t1 [OF this] have "strip_prefix (''======='' @ [NL]) (w @ ?S2) = None"
      by (simp only: strip_prefix_None not_False_eq_True)
    then show "rx_match ?mid c (w @ ?S2) k0 = None"
      by (simp only: rx_match.simps option.case)
  qed (rule a2)
  have "rx_match (Seq (Lit ''<<<<<<<'') (Seq (Star (not_char NL)) (Seq (Lit [NL])
          (Seq (Grp 1 (Lazy any_char)) ?mid)))) [] ?S k0
        = rx_match (Seq (Grp 1 (Lazy any_char)) ?mid) [] ?S1 k0"
    by (rule head_match [OF lab(1)])
  also have "\<dots> = Some y"
    using a1 by (simp only: rx_match.simps(5))
  finally have "rx_match (Seq (Lit ''<<<<<<<'') (Seq (Star (not_char NL)) (Seq (Lit [NL])
          (Seq (Grp 1 (Lazy any_char)) ?mid)))) [] ?S k0 = Some y" .
  then have "match_at generic_conflict_pattern ?S = Some y"
    by (simp add: match_at_def generic_conflict_pattern_def k0_def)
  then show ?thesis by (simp add: y_def grp_def)
qed

text \<open>The pattern of the merge step on the same region: both sides are captured.\<close>

lemma conflict_match:
  assumes lab: "NL \<notin> set lab" "NL \<notin> set lab2"
    and t1: "\<And>w. w \<noteq> [] \<Longrightarrow> suffix w T1 \<Longrightarrow>
               \<not> prefix (''======='' @ [NL]) (w @ (''======='' @ [NL]) @ T2 @ ''>>>>>>>'' @ lab2 @ NL # rest)
             \<and> \<not> prefix ''>>>>>>>'' (w @ (''======='' @ [NL]) @ T2 @ ''>>>>>>>'' @ lab2 @ NL # rest)"
    and t2: "\<And>w. w \<noteq> [] \<Longrightarrow> suffix w T2 \<Longrightarrow> \<not> prefix ''>>>>>>>'' (w @ ''>>>>>>>'' @ lab2 @ NL # rest)"
  shows "\<exists>cs. match_at conflict_pattern
                (''<<<<<<<'' @ lab @ NL # T1 @ (''======='' @ [NL]) @ T2 @ ''>>>>>>>'' @ lab2 @ NL # rest)
              = Some (cs, rest) \<and> grp 1 cs = T1 \<and> grp 2 cs = T2"
proof -
  let ?S4 = "''>>>>>>>'' @ lab2 @ NL # rest"
  let ?S3 = "T2 @ ?S4"
  let ?S2 = "(''======='' @ [NL]) @ ?S3"
  let ?S1 = "T1 @ ?S2"
  let ?S = "''<<<<<<<'' @ lab @ NL # ?S1"
  let ?tail = "Seq (Lit ''>>>>>>>'') (Seq (Star (not_char NL)) (Opt (Lit [NL])))"
  define k0 :: "caps \<Rightarrow> string \<Rightarrow> (caps \<times> string) option"
    where "k0 = (\<lambda>cs' s'. Some ((0, take (length ?S - length s') ?S) # cs', s'))"
  define y where "y = ((0::nat, take (length ?S - length rest) ?S) # [(2, T2), (1, T1)], rest)"
  have a4: "rx_match ?tail [(2, T2), (1, T1)] ?S4 k0 = Some y"
    by (rule tail_match [OF lab(2)]) (simp add: k0_def y_def)
  have a3: "rx_match (Grp 2 (Lazy any_char)) [(1, T1)] ?S3 (\<lambda>cs' s'. rx_match ?tail cs' s' k0) = Some y"
  proof (rule lazy_group_match)
    fix w :: string and c :: caps assume "w \<noteq> []" "suffix w T2"
    from t2 [OF this] have "strip_prefix ''>>>>>>>'' (w @ ?S4) = None"
      by (simp only: strip_prefix_None not_False_eq_True)
    then show "rx_match ?tail c (w @ ?S4) k0 = None"
      by (simp only: rx_match.simps option.case)
  qed (rule a4)
  let ?opt = "Opt (Seq (Lit (''======='' @ [NL])) (Grp 2 (Lazy any_char)))"
  let ?mid = "Seq ?opt ?tail"
  have a2: "rx_match ?mid [(1, T1)] ?S2 k0 = Some y"
    using a3 by (simp only: rx_match.simps(1,5,6) strip_prefix_append option.case)
  have a1: "rx_match (Grp 1 (Lazy any_char)) [] ?S1 (\<lambda>cs' s'. rx_match ?mid cs' s' k0) = Some y"
  proof (rule lazy_group_match)
    fix w :: string and c :: caps assume "w \<noteq> []" "suffix w T1"
    from t1 [OF this] have "strip_prefix (''======='' @ [NL]) (w @ ?S2) = None"
      and "strip_prefix ''>>>>>>>'' (w @ ?S2) = None"
      by (simp_all only: strip_prefix_None not_False_eq_True)
    then show "rx_match ?mid c (w @ ?S2) k0 = None"
      by (simp only: rx_match.simps(1,5,6) option.case)
  qed (rule a2)
  have "rx_match (Seq (Lit ''<<<<<<<'') (Seq (Star (not_char NL)) (Seq (Lit [NL])
          (Seq (Grp 1 (Lazy any_char)) ?mid)))) [] ?S k0
        = rx_match (Seq (Grp 1 (Lazy any_char)) ?mid) [] ?S1 k0"
    by (rule head_match [OF lab(1)])
  also have "\<dots> = Some y"
    using a1 by (simp only: rx_match.simps(5))
  finally have "rx_match (Seq (Lit ''<<<<<<<'') (Seq (Star (not_char NL)) (Seq (Lit [NL])
          (Seq (Grp 1 (Lazy any_char)) ?mid)))) [] ?S k0 = Some y" .
  then have "match_at conflict_pattern ?S = Some y"
    by (simp add: match_at_def conflict_pattern_def k0_def)
  then show ?thesis by (simp add: y_def grp_def)
qed

subsection \<open>The first pass needs a members literal or an empty first side\<close>

lemma contains_mid: "contains p (x @ p @ y)"
proof -
  have "suffix (p @ y) (x @ p @ y)" "prefix p (p @ y)" by (simp_all add: suffix_def)
  then show ?thesis unfolding contains_iff by blast
qed

lemma lang_members_side:
  "s \<in> lang members_side \<Longrightarrow> s = [] \<or> contains ''members'' (x @ s @ y)"
proof -
  assume "s \<in> lang members_side"
  then have "s = [] \<or> (\<exists>a b. s = a @ ''members'' @ b)"
    by (auto simp: members_side_def)
  then show ?thesis
  proof
    assume "s = []" then show ?thesis by simp
  next
    assume "\<exists>a b. s = a @ ''members'' @ b"
    then obtain a b where "s = a @ ''members'' @ b" by blast
    then have "x @ s @ y = (x @ a) @ ''members'' @ (b @ y)" by simp
    then show ?thesis using contains_mid [of "''members''" "x @ a" "b @ y"] by simp
  qed
qed

lemma members_pass_shape:
  assumes "match_at members_conflict_pattern u = Some (cs, r)" "\<not> contains ''members'' u"
  shows "\<exists>lab t. NL \<notin> set lab \<and> u = ''<<<<<<<'' @ lab @ NL # ''======='' @ NL # t"
proof -
  from match_at_lang [OF assms(1)] obtain m where m: "u = m @ r" "m \<in> lang members_conflict_pattern"
    by blast
  let ?rest = "seqs [Lit (''======='' @ [NL]), members_side, Lit ''>>>>>>>'', Star (not_char NL),
                     Opt (Lit [NL])]"
  from m(2) obtain lab s1 m4 where p: "m = ''<<<<<<<'' @ lab @ [NL] @ s1 @ m4"
    "list_all (not_char NL) lab" "s1 \<in> lang members_side" "m4 \<in> lang ?rest"
    unfolding members_conflict_pattern_def by (simp del: append.simps) blast
  from p(4) obtain m5 where m5: "m4 = (''======='' @ [NL]) @ m5"
    by (simp del: append.simps) blast
  have u: "u = (''<<<<<<<'' @ lab @ [NL]) @ s1 @ (m4 @ r)" using m(1) p(1) by simp
  from lang_members_side [OF p(3), of "''<<<<<<<'' @ lab @ [NL]" "m4 @ r"] assms(2)
  have "s1 = []" unfolding u by blast
  then have "u = ''<<<<<<<'' @ lab @ NL # ''======='' @ NL # (m5 @ r)"
    using u m5 by simp
  moreover have "NL \<notin> set lab" using p(2) by (auto simp: list_all_iff not_char_def)
  ultimately show ?thesis by blast
qed

text \<open>A place of the text of some lines, read up to its first newline, lies in one line.\<close>

lemma suffix_lines_split:
  assumes "\<forall>l \<in> set ls. NL \<notin> set l" "suffix u (lines_text ls)" "u = x @ NL # y" "NL \<notin> set x"
  shows "\<exists>l1 l l2. ls = l1 @ l # l2 \<and> suffix x l \<and> y = lines_text l2"
  using assms(1,2)
proof (induction ls)
  case Nil
  then show ?case using assms(3) by (simp add: lines_text_def)
next
  case (Cons l ls)
  from suffix_lines_text_Cons [OF Cons.prems(2)] show ?case
  proof
    assume "suffix u (lines_text ls)"
    then obtain l1 l' l2 where "ls = l1 @ l' # l2 \<and> suffix x l' \<and> y = lines_text l2"
      using Cons by auto
    then have "l # ls = (l # l1) @ l' # l2 \<and> suffix x l' \<and> y = lines_text l2" by simp
    then show ?thesis by blast
  next
    assume "\<exists>a. suffix a l \<and> u = a @ NL # lines_text ls"
    then obtain a where a: "suffix a l" "u = a @ NL # lines_text ls" by blast
    have "NL \<notin> set a" using a(1) Cons.prems(1) by (auto simp: suffix_def)
    from first_newline_unique [OF assms(4) this] a(2) assms(3)
    have "x = a" "y = lines_text ls" by simp_all
    then have "l # ls = [] @ l # ls \<and> suffix x l \<and> y = lines_text ls" using a(1) by simp
    then show ?thesis by blast
  qed
qed

lemma rx_finditer_skip:
  "(\<And>u. u \<noteq> [] \<Longrightarrow> suffix u x \<Longrightarrow> match_at p (u @ rest) = None)
   \<Longrightarrow> rx_finditer p (x @ rest) = rx_finditer p rest"
proof (induction x)
  case Nil
  then show ?case by simp
next
  case (Cons a x)
  have "match_at p ((a # x) @ rest) = None" using Cons.prems [of "a # x"] by simp
  then have "rx_finditer p ((a # x) @ rest) = rx_finditer p (x @ rest)"
    by (subst rx_finditer.simps) simp
  moreover have "rx_finditer p (x @ rest) = rx_finditer p rest"
    using Cons.IH Cons.prems by (simp add: suffix_Cons)
  ultimately show ?case by simp
qed

lemma rx_finditer_no_match:
  "(\<And>u. suffix u x \<Longrightarrow> match_at p u = None) \<Longrightarrow> rx_finditer p x = []"
proof (induction x)
  case Nil
  then show ?case by (subst rx_finditer.simps) simp
next
  case (Cons a x)
  then have "match_at p (a # x) = None" by simp
  then have "rx_finditer p (a # x) = rx_finditer p x"
    by (subst rx_finditer.simps) simp
  then show ?case using Cons by (simp add: suffix_Cons)
qed

lemma rx_finditer_match:
  "match_at p s = Some (cs, r) \<Longrightarrow> length r < length s \<Longrightarrow> rx_finditer p s = cs # rx_finditer p r"
  by (subst rx_finditer.simps) simp

lemma no_members_no_block:
  "\<not> contains ''members'' s \<Longrightarrow> extract_members_from_block s = {}"
proof -
  assume n: "\<not> contains ''members'' s"
  have "rx_search members_rx s = None"
  proof (rule rx_search_None)
    fix u assume "suffix u s"
    then have "\<not> prefix ''members'' u" using n by (auto simp: contains_iff)
    then have "strip_prefix ''members'' u = None" by (simp only: strip_prefix_None not_False_eq_True)
    then show "match_at members_rx u = None"
      by (simp add: match_at_def members_rx_def)
  qed
  then show ?thesis by (simp add: extract_members_from_block_def)
qed

lemma no_members_no_head:
  "\<not> contains ''members'' s \<Longrightarrow> rx_search members_head_rx s = None"
proof (rule rx_search_None)
  fix u assume "\<not> contains ''members'' s" "suffix u s"
  then have "\<not> prefix ''members'' u" by (auto simp: contains_iff)
  then have "strip_prefix ''members'' u = None" by (simp only: strip_prefix_None not_False_eq_True)
  then show "match_at members_head_rx u = None"
    by (simp add: match_at_def members_head_rx_def)
qed

lemma no_start_no_match:
  "\<not> prefix ''<<<<<<<'' s \<Longrightarrow>
   match_at generic_conflict_pattern s = None \<and> match_at conflict_pattern s = None"
proof -
  assume "\<not> prefix ''<<<<<<<'' s"
  then have "strip_prefix ''<<<<<<<'' s = None" by (simp only: strip_prefix_None not_False_eq_True)
  then show ?thesis
    by (simp add: match_at_def generic_conflict_pattern_def conflict_pattern_def)
qed

lemma lines_no_match:
  assumes "\<forall>l \<in> set ls. \<not> contains ''<<<<<<<'' l" "suffix u (lines_text ls)"
  shows "match_at generic_conflict_pattern u = None \<and> match_at conflict_pattern u = None"
proof (cases "u = []")
  case True
  then show ?thesis by (simp add: no_start_no_match)
next
  case False
  from lines_no_prefix [OF assms(1) _ _ False assms(2), of "[]"]
  have "\<not> prefix ''<<<<<<<'' u" by simp
  then show ?thesis by (rule no_start_no_match)
qed

lemma lines_skip:
  assumes "\<forall>l \<in> set ls. \<not> contains ''<<<<<<<'' l" "u \<noteq> []" "suffix u (lines_text ls)"
  shows "match_at generic_conflict_pattern (u @ rest) = None \<and> match_at conflict_pattern (u @ rest) = None"
proof -
  from lines_no_prefix [OF assms(1) _ _ assms(2,3), of rest]
  have "\<not> prefix ''<<<<<<<'' (u @ rest)" by simp
  then show ?thesis by (rule no_start_no_match)
qed

lemma region_doc_split:
  "region_doc pre lab ours theirs lab2 post =
   lines_text pre @ (''<<<<<<<'' @ lab @ NL # lines_text ours @ (''======='' @ [NL]) @ lines_text theirs
      @ ''>>>>>>>'' @ lab2 @ NL # lines_text post)"
  by (simp add: region_doc_def lines_text_def)

lemma region_first_pass:
  assumes pre: "\<forall>l \<in> set pre \<union> set post. manifest_line l"
    and sides: "\<forall>l \<in> set ours \<union> set theirs. side_line l"
    and ours: "ours \<noteq> []" "\<forall>l \<in> set ours. \<not> suffix ''======='' l"
    and labs: "NL \<notin> set lab" "\<not> contains ''members'' (''<<<<<<<'' @ lab)"
              "manifest_line (''>>>>>>>'' @ lab2)"
  shows "remove_members_conflicts (region_doc pre lab ours theirs lab2 post)
         = region_doc pre lab ours theirs lab2 post"
  unfolding remove_members_conflicts_def
proof (rule rx_sub_no_match)
  let ?start = "''<<<<<<<'' @ lab"
  let ?after = "ours @ [''=======''] @ theirs @ [''>>>>>>>'' @ lab2] @ post"
  let ?ls = "pre @ ?start # ?after"
  have doc: "region_doc pre lab ours theirs lab2 post = lines_text ?ls"
    by (simp add: region_doc_def)
  have nl: "\<forall>l \<in> set ?ls. NL \<notin> set l"
    using pre sides labs by (auto simp: manifest_line_def side_line_def)
  have mem: "\<forall>l \<in> set ?ls. \<not> contains ''members'' l"
    using pre sides labs by (auto simp: manifest_line_def side_line_def)
  have st: "\<forall>l \<in> set pre \<union> set ?after. \<not> contains ''<<<<<<<'' l"
    using pre sides labs by (auto simp: manifest_line_def side_line_def)
  have nomem: "\<not> contains ''members'' (lines_text ?ls)"
    by (rule lines_not_contains [OF mem]) simp_all
  fix u assume u: "suffix u (region_doc pre lab ours theirs lab2 post)"
  show "match_at members_conflict_pattern u = None"
  proof (rule ccontr)
    assume "match_at members_conflict_pattern u \<noteq> None"
    then obtain cs r where m: "match_at members_conflict_pattern u = Some (cs, r)" by auto
    have "\<not> contains ''members'' u"
      using nomem u unfolding doc contains_iff by (meson suffix_order.trans)
    from members_pass_shape [OF m this] obtain lb t where
      lb: "NL \<notin> set lb" "u = ''<<<<<<<'' @ lb @ NL # ''======='' @ NL # t" by blast
    have "u = (''<<<<<<<'' @ lb) @ NL # (''======='' @ NL # t)" using lb(2) by simp
    from suffix_lines_split [OF nl u [unfolded doc] this] lb(1)
    obtain l1 l l2 where s: "?ls = l1 @ l # l2" "suffix (''<<<<<<<'' @ lb) l"
      "''======='' @ NL # t = lines_text l2" by auto
    have "contains ''<<<<<<<'' l" using s(2) unfolding contains_iff by (auto simp: prefix_def)
    moreover have "l \<in> set ?ls" unfolding s(1) by simp
    ultimately have "l = ?start" using st by auto
    moreover have "contains ''<<<<<<<'' ?start"
      using contains_mid [of "''<<<<<<<''" "[]" lab] by simp
    then have "?start \<notin> set pre" "?start \<notin> set ?after"
      using st by blast+
    ultimately have l2: "l2 = ?after"
      using s(1) by (simp add: append_Cons_eq_iff)
    obtain o1 os where o: "ours = o1 # os" using ours(1) by (cases ours) auto
    have "NL \<notin> set o1" using sides o by (auto simp: side_line_def manifest_line_def)
    moreover have "''======='' @ NL # t = o1 @ NL # lines_text (os @ [''=======''] @ theirs @ [''>>>>>>>'' @ lab2] @ post)"
      using s(3) l2 o by (simp add: lines_text_def)
    ultimately have "o1 = ''======='' "
      using first_newline_unique [of "''=======''" o1 t] by simp
    then show False using ours(2) o by simp
  qed
qed

lemma region_second_pass:
  assumes pre: "\<forall>l \<in> set pre \<union> set post. manifest_line l"
    and sides: "\<forall>l \<in> set ours \<union> set theirs. side_line l"
    and ours: "\<forall>l \<in> set ours. \<not> suffix ''======='' l"
    and labs: "NL \<notin> set lab" "NL \<notin> set lab2"
  shows "resolve_generic_conflicts (region_doc pre lab ours theirs lab2 post)
         = lines_text (pre @ ours @ post)"
proof -
  let ?Z = "lines_text post"
  let ?S = "''<<<<<<<'' @ lab @ NL # lines_text ours @ (''======='' @ [NL]) @ lines_text theirs
              @ ''>>>>>>>'' @ lab2 @ NL # ?Z"
  let ?f = "\<lambda>cs. grp 1 cs"
  have p1: "\<forall>l \<in> set pre. \<not> contains ''<<<<<<<'' l" "\<forall>l \<in> set post. \<not> contains ''<<<<<<<'' l"
    using pre by (auto simp: manifest_line_def)
  have o1: "\<forall>l \<in> set ours. NL \<notin> set l \<and> \<not> suffix ''======='' l"
    using sides ours by (auto simp: side_line_def manifest_line_def)
  have t1: "\<forall>l \<in> set theirs. \<not> contains ''>>>>>>>'' l"
    using sides by (auto simp: side_line_def)
  have "\<exists>cs. match_at generic_conflict_pattern ?S = Some (cs, ?Z) \<and> grp 1 cs = lines_text ours"
  proof (rule generic_match [OF labs])
    fix w :: string assume "w \<noteq> []" "suffix w (lines_text ours)"
    from lines_no_separator [OF o1 _ this]
    show "\<not> prefix (''======='' @ [NL]) (w @ (''======='' @ [NL]) @ lines_text theirs @ ''>>>>>>>'' @ lab2 @ NL # ?Z)"
      by simp
  next
    fix w :: string assume "w \<noteq> []" "suffix w (lines_text theirs)"
    from lines_no_prefix [OF t1 _ _ this]
    show "\<not> prefix ''>>>>>>>'' (w @ ''>>>>>>>'' @ lab2 @ NL # ?Z)" by simp
  qed
  then obtain cs where cs: "match_at generic_conflict_pattern ?S = Some (cs, ?Z)"
    "grp 1 cs = lines_text ours" by blast
  have "rx_sub generic_conflict_pattern ?f (lines_text pre @ ?S)
        = lines_text pre @ rx_sub generic_conflict_pattern ?f ?S"
    by (rule rx_sub_skip) (simp add: lines_skip [OF p1(1)])
  also have "rx_sub generic_conflict_pattern ?f ?S = ?f cs @ rx_sub generic_conflict_pattern ?f ?Z"
    by (rule rx_sub_match [OF cs(1)]) simp
  also have "rx_sub generic_conflict_pattern ?f ?Z = ?Z"
    by (rule rx_sub_no_match) (simp add: lines_no_match [OF p1(2)])
  finally show ?thesis
    using cs(2) by (simp add: resolve_generic_conflicts_def region_doc_split lines_text_def)
qed

lemma region_members:
  assumes pre: "\<forall>l \<in> set pre \<union> set post. manifest_line l"
    and sides: "\<forall>l \<in> set ours \<union> set theirs. side_line l"
    and ours: "\<forall>l \<in> set ours. \<not> suffix ''======='' l"
    and labs: "NL \<notin> set lab" "NL \<notin> set lab2"
  shows "all_members (region_doc pre lab ours theirs lab2 post) = {}"
proof -
  let ?Z = "lines_text post"
  let ?S = "''<<<<<<<'' @ lab @ NL # lines_text ours @ (''======='' @ [NL]) @ lines_text theirs
              @ ''>>>>>>>'' @ lab2 @ NL # ?Z"
  have p1: "\<forall>l \<in> set pre. \<not> contains ''<<<<<<<'' l" "\<forall>l \<in> set post. \<not> contains ''<<<<<<<'' l"
    using pre by (auto simp: manifest_line_def)
  have o1: "\<forall>l \<in> set ours. NL \<notin> set l \<and> \<not> suffix ''======='' l"
    using sides ours by (auto simp: side_line_def manifest_line_def)
  have o2: "\<forall>l \<in> set ours. \<not> contains ''>>>>>>>'' l" "\<forall>l \<in> set theirs. \<not> contains ''>>>>>>>'' l"
    using sides by (auto simp: side_line_def)
  have m: "\<forall>l \<in> set ours. \<not> contains ''members'' l" "\<forall>l \<in> set theirs. \<not> contains ''members'' l"
    "\<forall>l \<in> set (pre @ post). \<not> contains ''members'' l"
    using sides pre by (auto simp: side_line_def manifest_line_def)
  have "\<exists>cs. match_at conflict_pattern ?S = Some (cs, ?Z) \<and> grp 1 cs = lines_text ours
          \<and> grp 2 cs = lines_text theirs"
  proof (rule conflict_match [OF labs])
    fix w :: string assume w: "w \<noteq> []" "suffix w (lines_text ours)"
    from lines_no_separator [OF o1 _ w] lines_no_prefix [OF o2(1) _ _ w]
    show "\<not> prefix (''======='' @ [NL]) (w @ (''======='' @ [NL]) @ lines_text theirs @ ''>>>>>>>'' @ lab2 @ NL # ?Z)
        \<and> \<not> prefix ''>>>>>>>'' (w @ (''======='' @ [NL]) @ lines_text theirs @ ''>>>>>>>'' @ lab2 @ NL # ?Z)"
      by simp
  next
    fix w :: string assume "w \<noteq> []" "suffix w (lines_text theirs)"
    from lines_no_prefix [OF o2(2) _ _ this]
    show "\<not> prefix ''>>>>>>>'' (w @ ''>>>>>>>'' @ lab2 @ NL # ?Z)" by simp
  qed
  then obtain cs where cs: "match_at conflict_pattern ?S = Some (cs, ?Z)"
    "grp 1 cs = lines_text ours" "grp 2 cs = lines_text theirs" by blast
  have "rx_finditer conflict_pattern (lines_text pre @ ?S) = rx_finditer conflict_pattern ?S"
    by (rule rx_finditer_skip) (simp add: lines_skip [OF p1(1)])
  also have "\<dots> = cs # rx_finditer conflict_pattern ?Z"
    by (rule rx_finditer_match [OF cs(1)]) simp
  also have "rx_finditer conflict_pattern ?Z = []"
    by (rule rx_finditer_no_match) (simp add: lines_no_match [OF p1(2)])
  finally have "conflict_members (region_doc pre lab ours theirs lab2 post)
                = extract_members_from_block (lines_text ours) \<union> extract_members_from_block (lines_text theirs)"
    using cs(2,3) by (simp add: conflict_members_def region_doc_split)
  moreover have "extract_members_from_block (lines_text ours) = {}"
    by (rule no_members_no_block) (rule lines_not_contains [OF m(1)], simp_all)
  moreover have "extract_members_from_block (lines_text theirs) = {}"
    by (rule no_members_no_block) (rule lines_not_contains [OF m(2)], simp_all)
  ultimately have a: "conflict_members (region_doc pre lab ours theirs lab2 post) = {}" by simp
  let ?e = "\<lambda>cs :: caps. [] :: string"
  have "rx_sub conflict_pattern ?e (lines_text pre @ ?S)
        = lines_text pre @ rx_sub conflict_pattern ?e ?S"
    by (rule rx_sub_skip) (simp add: lines_skip [OF p1(1)])
  also have "rx_sub conflict_pattern ?e ?S = ?e cs @ rx_sub conflict_pattern ?e ?Z"
    by (rule rx_sub_match [OF cs(1)]) simp
  also have "rx_sub conflict_pattern ?e ?Z = ?Z"
    by (rule rx_sub_no_match) (simp add: lines_no_match [OF p1(2)])
  finally have "clean_content (region_doc pre lab ours theirs lab2 post) = lines_text (pre @ post)"
    by (simp add: clean_content_def region_doc_split lines_text_def)
  moreover have "extract_members_from_block (lines_text (pre @ post)) = {}"
    by (rule no_members_no_block) (rule lines_not_contains [OF m(3)], simp_all)
  ultimately show ?thesis using a by (simp add: all_members_def)
qed

text \<open>
  One region that holds no members literal, in a file that holds none: the manifest tool
  keeps the first side and drops the markers and the second side.
\<close>

lemma cargo_keeps_ours:
  assumes pre: "\<forall>l \<in> set pre \<union> set post. manifest_line l"
    and sides: "\<forall>l \<in> set ours \<union> set theirs. side_line l"
    and ours: "ours \<noteq> []" "\<forall>l \<in> set ours. \<not> suffix ''======='' l"
    and labs: "NL \<notin> set lab" "\<not> contains ''members'' (''<<<<<<<'' @ lab)"
              "manifest_line (''>>>>>>>'' @ lab2)"
  shows "cargo_resolved (region_doc pre lab ours theirs lab2 post)
         = Inr (collapse_blank (lines_text (pre @ ours @ post)))"
proof -
  have l2: "NL \<notin> set lab2" using labs(3) by (auto simp: manifest_line_def)
  have m: "\<forall>l \<in> set (pre @ ours @ post). \<not> contains ''members'' l"
    using pre sides by (auto simp: side_line_def manifest_line_def)
  have "\<not> contains ''members'' (lines_text (pre @ ours @ post))"
    by (rule lines_not_contains [OF m]) simp_all
  then have "splice_members [] (lines_text (pre @ ours @ post)) = Inr (lines_text (pre @ ours @ post))"
    by (simp add: splice_members_def no_members_no_head)
  then show ?thesis
    by (simp add: cargo_resolved_def sorted_members_of_def
          region_first_pass [OF assms]
          region_second_pass [OF pre sides ours(2) labs(1) l2]
          region_members [OF pre sides ours(2) labs(1) l2])
qed


section \<open>The merged block of the manifest tool\<close>

subsection \<open>Occurrences\<close>

lemma contains_sublist: "contains p s \<longleftrightarrow> sublist p s"
  unfolding contains_iff sublist_def by (auto simp: suffix_def prefix_def) 

lemma contains_appendI: "contains p b \<Longrightarrow> contains p (a @ b @ c)"
  unfolding contains_sublist
  by (meson sublist_appendI sublist_order.order.trans)

lemma contains_trans: "contains p b \<Longrightarrow> contains b s \<Longrightarrow> contains p s"
  unfolding contains_sublist by (rule sublist_order.order.trans)

lemma contains_join_with: "x \<in> set ls \<Longrightarrow> contains x (join_with sep ls)"
proof (induction sep ls rule: join_with.induct)
  case (1 sep)
  then show ?case by simp
next
  case (2 sep l)
  then show ?case by (simp add: contains_sublist)
next
  case (3 sep l v va)
  show ?case
  proof (cases "x = l")
    case True
    then show ?thesis using contains_mid [of l "[]" "sep @ join_with sep (v # va)"] by simp
  next
    case False
    then have "contains x (join_with sep (v # va))" using 3 by simp
    then have "contains x ((l @ sep) @ join_with sep (v # va) @ [])" by (rule contains_appendI)
    then show ?thesis by simp
  qed
qed

lemma entry_in_block:
  assumes "e \<in> set ms"
  shows "contains ([DQ] @ e @ [DQ]) (new_members_block ms)"
proof -
  let ?q = "map (\<lambda>m. [DQ] @ m @ [DQ]) ms"
  have "[DQ] @ e @ [DQ] \<in> set ?q" using assms by auto
  then have "contains ([DQ] @ e @ [DQ]) (join_with ('','' @ [NL] @ ''    '') ?q)"
    by (rule contains_join_with)
  then have "contains ([DQ] @ e @ [DQ])
               ((''members = ['' @ [NL] @ ''    '') @ join_with ('','' @ [NL] @ ''    '') ?q @ ('','' @ [NL] @ '']''))"
    by (rule contains_appendI)
  moreover have "ms \<noteq> []" using assms by auto
  ultimately show ?thesis by (simp add: new_members_block_def)
qed

subsection \<open>The blank-line cleanup leaves the merged block as it is\<close>

lemma squeeze_keep_tail:
  "run_ok k u \<Longrightarrow> u \<noteq> [] \<Longrightarrow> last u \<noteq> NL \<Longrightarrow> squeeze k (u @ y) = u @ squeeze 0 y"
proof (induction u arbitrary: k)
  case Nil
  then show ?case by simp
next
  case (Cons c u)
  show ?case
  proof (cases "u = []")
    case True
    then show ?thesis using Cons.prems by simp
  next
    case False
    then show ?thesis using Cons by (auto split: if_splits)
  qed
qed

lemma squeeze_keep:
  assumes "b \<noteq> []" "hd b \<noteq> NL" "last b \<noteq> NL" "run_ok 0 b"
  shows "squeeze n (x @ b @ y) = squeeze n x @ b @ squeeze 0 y"
proof -
  have r: "run_ok k b" for k using assms(1,2,4) by (cases b) auto
  show ?thesis
  proof (induction x arbitrary: n)
    case Nil
    then show ?case using squeeze_keep_tail [OF r assms(1,3)] by simp
  next
    case (Cons a x)
    then show ?case by simp
  qed
qed

lemma collapse_keeps:
  assumes "b \<noteq> []" "hd b \<noteq> NL" "last b \<noteq> NL" "run_ok 0 b" "contains b t"
  shows "contains b (collapse_blank t)"
proof -
  from assms(5) obtain x y where "t = x @ b @ y"
    unfolding contains_sublist sublist_def by blast
  then have "collapse_blank t = squeeze 0 x @ b @ squeeze 0 y"
    using squeeze_keep [OF assms(1-4)] by (simp add: collapse_blank_squeeze)
  then show ?thesis using contains_mid [of b "squeeze 0 x" "squeeze 0 y"] by simp
qed

lemma run_ok_plain: "NL \<notin> set u \<Longrightarrow> u \<noteq> [] \<Longrightarrow> run_ok n (u @ v) = run_ok 0 v"
proof (induction u arbitrary: n)
  case Nil
  then show ?case by simp
next
  case (Cons c u)
  then show ?case by (cases "u = []") auto
qed

lemma run_ok_join:
  assumes "\<forall>l \<in> set ls. NL \<notin> set l \<and> l \<noteq> []"
  shows "ls \<noteq> [] \<Longrightarrow> run_ok n (join_with ('','' @ [NL] @ ''    '') ls @ v) = run_ok 0 v"
  using assms
proof (induction "'','' @ [NL] @ ''    ''" ls arbitrary: n rule: join_with.induct)
  case 1
  then show ?case by simp
next
  case (2 l)
  then show ?case by (simp add: run_ok_plain)
next
  case (3 l x xs)
  have a: "run_ok n (join_with ('','' @ [NL] @ ''    '') (l # x # xs) @ v)
        = run_ok n (l @ ('','' @ [NL] @ ''    '') @ join_with ('','' @ [NL] @ ''    '') (x # xs) @ v)"
    by simp
  also have "\<dots> = run_ok 0 (('','' @ [NL] @ ''    '') @ join_with ('','' @ [NL] @ ''    '') (x # xs) @ v)"
    using 3(3) by (intro run_ok_plain) simp_all
  also have "\<dots> = run_ok 0 (join_with ('','' @ [NL] @ ''    '') (x # xs) @ v)"
    by simp
  also have "\<dots> = run_ok 0 v" using 3 by simp
  finally show ?case .
qed

lemma block_shape:
  assumes "\<forall>m \<in> set ms. NL \<notin> set m"
  shows "new_members_block ms \<noteq> []" "hd (new_members_block ms) \<noteq> NL"
    "last (new_members_block ms) \<noteq> NL" "run_ok 0 (new_members_block ms)"
proof -
  let ?q = "map (\<lambda>m. [DQ] @ m @ [DQ]) ms"
  show "new_members_block ms \<noteq> []" "hd (new_members_block ms) \<noteq> NL"
    "last (new_members_block ms) \<noteq> NL"
    by (simp_all add: new_members_block_def)
  show "run_ok 0 (new_members_block ms)"
  proof (cases "ms = []")
    case True
    then show ?thesis by (simp add: new_members_block_def)
  next
    case False
    have q: "\<forall>l \<in> set ?q. NL \<notin> set l \<and> l \<noteq> []" using assms by auto
    have "run_ok 0 (join_with ('','' @ [NL] @ ''    '') ?q @ ('','' @ [NL] @ '']'')) = run_ok 0 ('','' @ [NL] @ '']'')"
      using False by (intro run_ok_join [OF q]) simp
    then show ?thesis using False by (simp add: new_members_block_def)
  qed
qed

subsection \<open>Where the merged block is written\<close>

lemma rx_search_iff: "rx_search p s \<noteq> None \<longleftrightarrow> (\<exists>u. suffix u s \<and> match_at p u \<noteq> None)"
proof (induction s)
  case Nil
  then show ?case by (auto split: option.splits)
next
  case (Cons c s)
  show ?case
  proof (cases "match_at p (c # s)")
    case None
    then have "rx_search p (c # s) \<noteq> None \<longleftrightarrow> rx_search p s \<noteq> None"
      by (auto split: option.splits)
    moreover have "(\<exists>u. suffix u (c # s) \<and> match_at p u \<noteq> None) \<longleftrightarrow> (\<exists>u. suffix u s \<and> match_at p u \<noteq> None)"
      using None by (auto simp: suffix_Cons)
    ultimately show ?thesis using Cons by simp
  next
    case (Some a)
    then have "rx_search p (c # s) \<noteq> None" by (auto split: prod.splits)
    moreover have "suffix (c # s) (c # s) \<and> match_at p (c # s) \<noteq> None" using Some by simp
    ultimately show ?thesis by blast
  qed
qed

lemma rx_sub_contains:
  assumes "\<And>cs. contains b (repl cs)"
  shows "rx_search p s \<noteq> None \<Longrightarrow> contains b (rx_sub p repl s)"
proof (induction s)
  case Nil
  then obtain cs r where m: "match_at p [] = Some (cs, r)" by (auto split: option.splits)
  have "rx_sub p repl [] = repl cs @ []"
    using m by (subst rx_sub.simps) simp
  then show ?case using contains_appendI [OF assms, of "[]" cs "[]"] by simp
next
  case (Cons c s)
  show ?case
  proof (cases "match_at p (c # s)")
    case None
    then have "rx_search p s \<noteq> None" using Cons.prems by (auto split: option.splits)
    then have "contains b (rx_sub p repl s)" by (rule Cons.IH)
    moreover have "rx_sub p repl (c # s) = c # rx_sub p repl s"
      using None by (subst rx_sub.simps) simp
    ultimately show ?thesis by simp
  next
    case (Some a)
    obtain cs r where a: "a = (cs, r)" by (cases a)
    have "\<exists>x. rx_sub p repl (c # s) = repl cs @ x"
      using Some a by (subst rx_sub.simps) simp
    then obtain x where "rx_sub p repl (c # s) = [] @ repl cs @ x" by auto
    then show ?thesis using contains_appendI [OF assms, of "[]" cs x] by simp
  qed
qed

lemma literal_search_head:
  "rx_search members_literal_rx s \<noteq> None \<Longrightarrow> rx_search members_head_rx s \<noteq> None"
  unfolding rx_search_iff
  by (auto simp: match_at_members_literal_rx match_at_members_head_rx split: option.splits if_splits)

lemma workspace_search:
  "contains ''[workspace]'' s \<Longrightarrow> rx_search workspace_rx s \<noteq> None"
proof -
  assume "contains ''[workspace]'' s"
  then obtain u where u: "suffix u s" "prefix ''[workspace]'' u" by (auto simp: contains_iff)
  then obtain r where "u = ''[workspace]'' @ r" by (auto simp: prefix_def)
  then have "match_at workspace_rx u \<noteq> None"
    by (simp add: match_at_def workspace_rx_def)
  then show ?thesis using u(1) unfolding rx_search_iff by blast
qed

lemma workspace_template:
  "BS \<notin> set b \<Longrightarrow>
   rx_sub_template workspace_rx 1 ([BS, CHR ''1'', NL] @ b) s
   = Inr (rx_sub workspace_rx (\<lambda>cs. grp 1 cs @ NL # b) s)"
proof -
  assume b: "BS \<notin> set b"
  have e: "escape 1 (CHR ''1'' # NL # b) = Inr (PGrp 1, 1)"
    by (simp add: escape_def is_digit_def addgroup_def digit_val_def)
  have "parse_template 1 (NL # b) = Inr (map (\<lambda>c. PLit [c]) (NL # b))"
    using b by (intro parse_template_plain) simp
  then have "parse_template 1 ([BS, CHR ''1'', NL] @ b) = Inr (PGrp 1 # map (\<lambda>c. PLit [c]) (NL # b))"
    using e by simp
  moreover have "expand (PGrp 1 # map (\<lambda>c. PLit [c]) (NL # b)) = (\<lambda>cs. grp 1 cs @ NL # b)"
    by (rule ext) (simp only: expand.simps expand_plain)
  ultimately show ?thesis by (simp add: rx_sub_template_def)
qed

lemma finite_members: "finite (all_members content)"
proof -
  have "finite (extract_members_from_block s)" for s
    by (simp add: extract_members_from_block_def split: option.splits)
  then show ?thesis by (simp add: all_members_def conflict_members_def)
qed

text \<open>
  An entry taken from a side of a match of the conflict pattern is in the merged block;
  the block is part of the written text when a members literal is left after the two
  removal passes, or no opening of one and a \<^verbatim>\<open>[workspace]\<close> header.
\<close>

lemma cargo_block_written:
  assumes cs: "cs \<in> set (rx_finditer conflict_pattern content)"
    and e: "e \<in> extract_members_from_block (grp 1 cs) \<union> extract_members_from_block (grp 2 cs)"
    and plain: "\<forall>m \<in> all_members content. BS \<notin> set m \<and> NL \<notin> set m"
    and anchor: "rx_search members_literal_rx (resolve_generic_conflicts (remove_members_conflicts content)) \<noteq> None
       \<or> (rx_search members_head_rx (resolve_generic_conflicts (remove_members_conflicts content)) = None
          \<and> contains ''[workspace]'' (resolve_generic_conflicts (remove_members_conflicts content)))"
  shows "contains ([DQ] @ e @ [DQ]) (new_members_block (sorted_members_of content))
       \<and> (\<exists>t. cargo_resolved content = Inr t \<and> contains (new_members_block (sorted_members_of content)) t)"
proof -
  let ?ms = "sorted_members_of content"
  let ?b = "new_members_block ?ms"
  let ?R = "resolve_generic_conflicts (remove_members_conflicts content)"
  have "e \<in> conflict_members content" using cs e unfolding conflict_members_def by blast
  then have "e \<in> all_members content" by (simp add: all_members_def)
  moreover have s: "set ?ms = all_members content"
    by (simp add: sorted_members_of_def finite_members)
  ultimately have ems: "e \<in> set ?ms" by simp
  then have ne: "?ms \<noteq> []" by auto
  have c1: "contains ([DQ] @ e @ [DQ]) ?b" using ems by (rule entry_in_block)
  have "BS \<notin> set (concat ?ms)" using plain s by auto
  then have bs: "BS \<notin> set ?b" by (rule block_no_backslash)
  have nl: "\<forall>m \<in> set ?ms. NL \<notin> set m" using plain s by auto
  have "\<exists>r. splice_members ?ms ?R = Inr r \<and> contains ?b r"
    using anchor
  proof
    assume a: "rx_search members_literal_rx ?R \<noteq> None"
    then have h: "rx_search members_head_rx ?R \<noteq> None" by (rule literal_search_head)
    have "contains ?b (rx_sub members_literal_rx (\<lambda>cs. ?b) ?R)"
      by (rule rx_sub_contains [OF _ a]) (simp add: contains_sublist)
    then show ?thesis using h by (simp add: splice_members_def rx_sub_template_plain [OF bs])
  next
    assume a: "rx_search members_head_rx ?R = None \<and> contains ''[workspace]'' ?R"
    then have w: "rx_search workspace_rx ?R \<noteq> None" by (simp add: workspace_search)
    have "contains ?b (rx_sub workspace_rx (\<lambda>cs. grp 1 cs @ NL # ?b) ?R)"
    proof (rule rx_sub_contains [OF _ w])
      fix cs :: caps
      show "contains ?b (grp 1 cs @ NL # ?b)"
        using contains_mid [of ?b "grp 1 cs @ [NL]" "[]"] by simp
    qed
    moreover have "splice_members ?ms ?R
                   = rx_sub_template workspace_rx 1 ([BS, CHR ''1'', NL] @ ?b) ?R"
      using a ne by (simp add: splice_members_def)
    ultimately show ?thesis by (simp only: workspace_template [OF bs]) blast
  qed
  then obtain r where r: "splice_members ?ms ?R = Inr r" "contains ?b r" by blast
  have "contains ?b (collapse_blank r)"
    using block_shape [OF nl] r(2) by (rule collapse_keeps)
  moreover have "cargo_resolved content = Inr (collapse_blank r)"
    using r(1) by (simp add: cargo_resolved_def)
  ultimately show ?thesis using c1 by blast
qed


section \<open>The leftmost members literal\<close>

lemma match_at_members_rx_None: "\<not> literal_at u \<Longrightarrow> match_at members_rx u = None"
  by (auto simp: literal_at_def match_at_members_rx split: option.splits)

lemma literal_group:
  assumes "list_all is_space w1" "list_all is_space w2" "CHR '']'' \<notin> set c"
  shows "\<exists>cs. match_at members_rx (members_literal w1 w2 c @ rest) = Some (cs, rest) \<and> grp 1 cs = c"
proof -
  have "members_head (members_literal w1 w2 c @ rest) = Some (c @ CHR '']'' # rest)"
    using members_head_general [OF assms(1,2)] by (simp add: members_literal_def)
  then show ?thesis using assms(3) by (simp add: match_at_members_rx grp_def)
qed

section \<open>Exit codes\<close>

text \<open>
  C6. With a target path that does not exist, either tool leaves every file as it was,
  prints \<^verbatim>\<open>Error: File not found: <path>\<close> on the error stream and the process exits
  with code 1. Every run in which the resolver returns \<^verbatim>\<open>True\<close> exits with code 0, and
  so does the run on a file without the text of a start marker, which writes nothing.
\<close>

theorem exit_codes:
  "(files w (librs_parse_args arg) = None \<longrightarrow>
      librs_main arg w = (1, print_err (''Error: File not found: '' @ librs_parse_args arg) w)
      \<and> files (snd (librs_main arg w)) = files w)
 \<and> (files w (cargo_parse_args arg) = None \<longrightarrow>
      cargo_main arg w = (1, print_err (''Error: File not found: '' @ cargo_parse_args arg) w)
      \<and> files (snd (cargo_main arg w)) = files w)
 \<and> (fst (resolve_librs_conflict (librs_parse_args arg) w) \<longrightarrow> fst (librs_main arg w) = 0)
 \<and> (fst (resolve_cargo_conflict (cargo_parse_args arg) w) = Inr True \<longrightarrow> fst (cargo_main arg w) = 0)
 \<and> (\<forall>c. files w (librs_parse_args arg) = Some c \<and> \<not> contains ''<<<<<<< '' c \<longrightarrow>
      librs_main arg w = (0, print_out (''No conflict markers found in '' @ librs_parse_args arg) w))
 \<and> (\<forall>c. files w (cargo_parse_args arg) = Some c \<and> \<not> contains ''<<<<<<< '' c \<longrightarrow>
      cargo_main arg w = (0, print_out (''No conflict markers found in '' @ cargo_parse_args arg) w))"
  by (auto simp: librs_main_def cargo_main_def resolve_librs_conflict_def resolve_cargo_conflict_def
        print_err_def print_out_def split: prod.splits sum.splits option.splits)

text \<open>The theorem at a missing file (both tools) and at a file without markers (both tools).\<close>

theorem exit_codes_witness:
  "fst (librs_main None \<lparr>files = Map.empty, out = [], err = []\<rparr>) = 1
   \<and> fst (cargo_main None \<lparr>files = Map.empty, out = [], err = []\<rparr>) = 1
   \<and> fst (librs_main None \<lparr>files = [''src/lib.rs'' \<mapsto> ''fn f() {}''], out = [], err = []\<rparr>) = 0
   \<and> fst (cargo_main (Some ''a.toml'') \<lparr>files = [''a.toml'' \<mapsto> ''[workspace]''], out = [], err = []\<rparr>) = 0"
proof -
  let ?w0 = "\<lparr>files = Map.empty, out = [], err = []\<rparr>"
  let ?w1 = "\<lparr>files = [''src/lib.rs'' \<mapsto> ''fn f() {}''], out = [], err = []\<rparr>"
  let ?w2 = "\<lparr>files = [''a.toml'' \<mapsto> ''[workspace]''], out = [], err = []\<rparr>"
  have a: "files ?w0 (librs_parse_args None) = None" "files ?w0 (cargo_parse_args None) = None"
    by simp_all
  have b: "files ?w1 (librs_parse_args None) = Some ''fn f() {}'' \<and> \<not> contains ''<<<<<<< '' ''fn f() {}''"
    by (simp add: librs_parse_args_def)
  have c: "files ?w2 (cargo_parse_args (Some ''a.toml'')) = Some ''[workspace]'' \<and> \<not> contains ''<<<<<<< '' ''[workspace]''"
    by (simp add: cargo_parse_args_def)
  have "librs_main None ?w0 = (1, print_err (''Error: File not found: '' @ librs_parse_args None) ?w0)"
    using exit_codes [of ?w0 None] a by blast
  moreover have "cargo_main None ?w0 = (1, print_err (''Error: File not found: '' @ cargo_parse_args None) ?w0)"
    using exit_codes [of ?w0 None] a by blast
  moreover have "librs_main None ?w1 = (0, print_out (''No conflict markers found in '' @ librs_parse_args None) ?w1)"
    using exit_codes [of ?w1 None] b by blast
  moreover have "cargo_main (Some ''a.toml'') ?w2
      = (0, print_out (''No conflict markers found in '' @ cargo_parse_args (Some ''a.toml'')) ?w2)"
    using exit_codes [of ?w2 "Some ''a.toml''"] c by blast
  ultimately show ?thesis by simp
qed

section \<open>The members extractor reads one literal\<close>

text \<open>
  C9 (as amended). \<^verbatim>\<open>extract_members_from_block\<close> takes the quoted strings of the
  leftmost members literal of the block only. Whatever text stands before that literal
  (no literal starts in it) and whatever follows its closing bracket, further literals
  included, adds nothing to the result; a block in which no literal starts yields no
  entry. A literal is \<^verbatim>\<open>members\<close>, blanks, \<^verbatim>\<open>=\<close>, blanks, \<^verbatim>\<open>[\<close>, a text \<open>c\<close> without
  closing bracket, \<^verbatim>\<open>]\<close>.
\<close>

theorem extract_first_literal_only:
  "(list_all is_space w1 \<and> list_all is_space w2 \<and> CHR '']'' \<notin> set c
      \<and> (\<forall>u. u \<noteq> [] \<and> suffix u before \<longrightarrow> \<not> literal_at (u @ members_literal w1 w2 c @ rest))
    \<longrightarrow> extract_members_from_block (before @ members_literal w1 w2 c @ rest)
        = set (map (grp 1) (rx_finditer quoted_rx c)))
   \<and> ((\<forall>u. suffix u block \<longrightarrow> \<not> literal_at u) \<longrightarrow> extract_members_from_block block = {})"
proof (intro conjI impI)
  assume h: "list_all is_space w1 \<and> list_all is_space w2 \<and> CHR '']'' \<notin> set c
      \<and> (\<forall>u. u \<noteq> [] \<and> suffix u before \<longrightarrow> \<not> literal_at (u @ members_literal w1 w2 c @ rest))"
  let ?l = "members_literal w1 w2 c @ rest"
  from h obtain cs where cs: "match_at members_rx ?l = Some (cs, rest)" "grp 1 cs = c"
    using literal_group [of w1 w2 c rest] by blast
  have "rx_search members_rx (before @ ?l)
        = (case rx_search members_rx ?l of None \<Rightarrow> None | Some (pre, cs, r) \<Rightarrow> Some (before @ pre, cs, r))"
  proof (rule rx_search_skip)
    fix u assume "u \<noteq> []" "suffix u before"
    then have "\<not> literal_at (u @ ?l)" using h by blast
    then show "match_at members_rx (u @ ?l) = None" by (rule match_at_members_rx_None)
  qed
  then have "rx_search members_rx (before @ ?l) = Some (before @ [], cs, rest)"
    using rx_search_here [OF cs(1)] by simp
  then show "extract_members_from_block (before @ ?l) = set (map (grp 1) (rx_finditer quoted_rx c))"
    using cs(2) by (simp add: extract_members_from_block_def)
next
  assume "\<forall>u. suffix u block \<longrightarrow> \<not> literal_at u"
  then have "rx_search members_rx block = None"
    by (intro rx_search_None match_at_members_rx_None) blast
  then show "extract_members_from_block block = {}"
    by (simp add: extract_members_from_block_def)
qed

lemma first_literal_example:
  "list_all is_space '' '' \<and> list_all is_space '' '' \<and> CHR '']'' \<notin> set [DQ, CHR ''a'', DQ]"
  "\<forall>u \<in> set (suffixes (''[workspace]'' @ [NL])). u \<noteq> [] \<longrightarrow>
      \<not> literal_at (u @ members_literal '' '' '' '' [DQ, CHR ''a'', DQ]
                       @ (NL # ''members = ['' @ [DQ, CHR ''b'', DQ] @ '']''))"
  "\<forall>u \<in> set (suffixes (''[workspace]'' @ [NL] @ ''members = ['' @ [DQ, CHR ''a'', DQ])). \<not> literal_at u"
  "set (map (grp 1) (rx_finditer quoted_rx [DQ, CHR ''a'', DQ])) = {''a''}"
  "(''[workspace]'' @ [NL]) @ members_literal '' '' '' '' [DQ, CHR ''a'', DQ]
      @ (NL # ''members = ['' @ [DQ, CHR ''b'', DQ] @ '']'')
   = ''[workspace]'' @ [NL] @ ''members = ['' @ [DQ, CHR ''a'', DQ] @ '']'' @ [NL]
      @ ''members = ['' @ [DQ, CHR ''b'', DQ] @ '']''"
  by code_simp+

text \<open>
  The block \<^verbatim>\<open>[workspace]\<close>, \<^verbatim>\<open>members = ["a"]\<close>, \<^verbatim>\<open>members = ["b"]\<close> (three lines)
  yields only \<^verbatim>\<open>a\<close>; the same block cut before the first closing bracket yields
  nothing.
\<close>

theorem extract_first_literal_only_witness:
  "extract_members_from_block
     (''[workspace]'' @ [NL] @ ''members = ['' @ [DQ, CHR ''a'', DQ] @ '']'' @ [NL]
      @ ''members = ['' @ [DQ, CHR ''b'', DQ] @ '']'') = {''a''}
   \<and> extract_members_from_block (''[workspace]'' @ [NL] @ ''members = ['' @ [DQ, CHR ''a'', DQ]) = {}"
proof -
  let ?rest = "NL # ''members = ['' @ [DQ, CHR ''b'', DQ] @ '']''"
  have a: "\<forall>u. u \<noteq> [] \<and> suffix u (''[workspace]'' @ [NL]) \<longrightarrow>
      \<not> literal_at (u @ members_literal '' '' '' '' [DQ, CHR ''a'', DQ] @ ?rest)"
    using first_literal_example(2) unfolding Ball_def in_set_suffixes by blast
  have b: "\<forall>u. suffix u (''[workspace]'' @ [NL] @ ''members = ['' @ [DQ, CHR ''a'', DQ]) \<longrightarrow> \<not> literal_at u"
    using first_literal_example(3) unfolding Ball_def in_set_suffixes by blast
  have "extract_members_from_block ((''[workspace]'' @ [NL]) @ members_literal '' '' '' '' [DQ, CHR ''a'', DQ] @ ?rest)
        = set (map (grp 1) (rx_finditer quoted_rx [DQ, CHR ''a'', DQ]))"
    using extract_first_literal_only [where ?w1.0 = "'' ''" and ?w2.0 = "'' ''" and c = "[DQ, CHR ''a'', DQ]"
        and before = "''[workspace]'' @ [NL]" and rest = ?rest]
      first_literal_example(1) a by blast
  moreover have "extract_members_from_block (''[workspace]'' @ [NL] @ ''members = ['' @ [DQ, CHR ''a'', DQ]) = {}"
    using extract_first_literal_only [where block = "''[workspace]'' @ [NL] @ ''members = ['' @ [DQ, CHR ''a'', DQ]"]
      b by blast
  ultimately show ?thesis by (simp only: first_literal_example(4,5))
qed

text \<open>
  C9 as stated fails: in the same block the entry \<^verbatim>\<open>b\<close> of the second literal is not
  extracted.
\<close>

theorem extract_second_literal_counterexample:
  "''b'' \<notin> extract_members_from_block
     (''members = ['' @ [DQ, CHR ''a'', DQ] @ '']'' @ (NL # ''members = ['' @ [DQ, CHR ''b'', DQ] @ '']''))"
  by code_simp

section \<open>The end of the written text\<close>

text \<open>
  C8 (as amended). The text written by either tool never ends with three or more
  newlines. The declaration tool's text always ends with a newline, so with one or two;
  the manifest tool adds none.
\<close>

theorem trailing_newlines:
  "ends_nl (librs_resolved content) \<and> \<not> suffix [NL, NL, NL] (librs_resolved content)
   \<and> (\<forall>t. cargo_resolved content = Inr t \<longrightarrow> \<not> suffix [NL, NL, NL] t)"
proof -
  let ?r = "collapse_blank (join_nl (place_mods (scan_lines (split_nl content))))"
  have ok: "run_ok 0 ?r" by (simp add: collapse_blank_squeeze squeeze_run_ok)
  have librs: "ends_nl (librs_resolved content) \<and> \<not> suffix [NL, NL, NL] (librs_resolved content)"
  proof (cases "ends_nl ?r")
    case True
    then show ?thesis using ok by (simp add: librs_resolved_def Let_def run_ok_no_triple)
  next
    case False
    then have "\<not> suffix [NL, NL] (?r @ [NL])" by (auto simp: ends_nl_def suffix_def)
    then have "\<not> suffix [NL, NL, NL] (?r @ [NL])"
      by (metis suffix_ConsD)
    then show ?thesis using False by (simp add: librs_resolved_def Let_def ends_nl_def)
  qed
  have cargo: "\<not> suffix [NL, NL, NL] t" if "cargo_resolved content = Inr t" for t
  proof -
    from that obtain r where "t = collapse_blank r"
      by (auto simp: cargo_resolved_def split: sum.splits)
    then show ?thesis by (simp add: collapse_blank_squeeze squeeze_run_ok run_ok_no_triple)
  qed
  show ?thesis using librs cargo by blast
qed

lemma trailing_example:
  "cargo_resolved (lines_text [''<<<<<<< a'', ''x'', ''======='', ''y'', ''>>>>>>> b''])
     = Inr (''x'' @ [NL])"
  by code_simp

theorem trailing_newlines_witness:
  "ends_nl (librs_resolved (lines_text [''<<<<<<< a'', ''x'', ''======='', ''y'', ''>>>>>>> b'']))
   \<and> cargo_resolved (lines_text [''<<<<<<< a'', ''x'', ''======='', ''y'', ''>>>>>>> b''])
       = Inr (''x'' @ [NL])
   \<and> \<not> suffix [NL, NL, NL] (''x'' @ [NL])"
  using trailing_newlines [of "lines_text [''<<<<<<< a'', ''x'', ''======='', ''y'', ''>>>>>>> b'']"]
        trailing_example
  by blast

text \<open>
  C8 as stated fails for both tools: the declaration tool keeps two newlines at the end
  of a text that had them, and the manifest tool writes an empty text, without any
  newline, when the whole file was one members conflict.
\<close>

theorem one_trailing_newline_counterexample:
  "librs_resolved (lines_text [''<<<<<<< a'', ''>>>>>>> b'', ''x'', '''']) = ''x'' @ [NL, NL]
   \<and> cargo_resolved
         (lines_text [''<<<<<<< a'', ''members = ['' @ [DQ] @ ''a'' @ [DQ] @ '']'', ''======='',
                      ''members = ['' @ [DQ] @ ''b'' @ [DQ] @ '']'', ''>>>>>>> b'']) = Inr []"
  by code_simp

section \<open>Markers without entries\<close>

text \<open>
  C7 (as amended). When the file holds the text of a start marker and no entry is
  extracted anywhere, both tools succeed with exit code 0 and print the line
  \<^verbatim>\<open>Resolved <path>\<close>. The manifest tool also prints the line
  \<^verbatim>\<open>Warning: No workspace members found in <path>\<close> on the error stream; the
  declaration tool prints nothing there. (What becomes of the conflict regions is the
  subject of C3.)
\<close>

theorem no_entries_warning:
  "files w p = Some c \<Longrightarrow> contains ''<<<<<<< '' c \<Longrightarrow>
     (all_members c = {} \<longrightarrow>
        fst (cargo_main (Some p) w) = 0
        \<and> err (snd (cargo_main (Some p) w)) = err w @ [''Warning: No workspace members found in '' @ p]
        \<and> out (snd (cargo_main (Some p) w)) = out w @ [''Resolved '' @ p])
   \<and> (all_pub_mods (scan_lines (split_nl c)) = [] \<longrightarrow>
        fst (librs_main (Some p) w) = 0
        \<and> err (snd (librs_main (Some p) w)) = err w
        \<and> out (snd (librs_main (Some p) w)) = out w @ [''Resolved '' @ p])"
proof (intro conjI impI)
  assume f: "files w p = Some c" and m: "contains ''<<<<<<< '' c"
  {
    assume e: "all_members c = {}"
    then have s: "sorted_members_of c = []" by (simp add: sorted_members_of_def)
    obtain r where r: "splice_members [] (resolve_generic_conflicts (remove_members_conflicts c)) = Inr r"
      using splice_members_empty by blast
    have res: "cargo_resolved c = Inr (collapse_blank r)"
      by (simp add: cargo_resolved_def s r)
    have main: "cargo_main (Some p) w =
         (0, fold print_out (cargo_report p [])
               (write_text p (collapse_blank r)
                  (print_err (''Warning: No workspace members found in '' @ p) w)))"
      using f m e by (simp add: cargo_main_def cargo_parse_args_def resolve_cargo_conflict_def res s)
    show "fst (cargo_main (Some p) w) = 0" by (simp add: main)
    show "err (snd (cargo_main (Some p) w)) = err w @ [''Warning: No workspace members found in '' @ p]"
      by (simp add: main)
    show "out (snd (cargo_main (Some p) w)) = out w @ [''Resolved '' @ p]"
      by (simp add: main cargo_report_def)
  }
  {
    assume e: "all_pub_mods (scan_lines (split_nl c)) = []"
    then have s: "sorted_mods_of (scan_lines (split_nl c)) = []" by (simp add: sorted_mods_of_def)
    have main: "librs_main (Some p) w =
         (0, fold print_out (librs_report p []) (write_text p (librs_resolved c) w))"
      using f m by (simp add: librs_main_def librs_parse_args_def resolve_librs_conflict_def s)
    show "fst (librs_main (Some p) w) = 0" by (simp add: main)
    show "err (snd (librs_main (Some p) w)) = err w" by (simp add: main)
    show "out (snd (librs_main (Some p) w)) = out w @ [''Resolved '' @ p]"
      by (simp add: main librs_report_def)
  }
qed

lemma generic_doc_facts:
  "contains ''<<<<<<< '' generic_doc"
  "all_members generic_doc = {}"
  "all_pub_mods (scan_lines (split_nl generic_doc)) = []"
  by code_simp+

text \<open>Both tools on the example with one conflict and no entry.\<close>

theorem no_entries_warning_witness:
  "contains ''<<<<<<< '' generic_doc
   \<and> all_members generic_doc = {}
   \<and> all_pub_mods (scan_lines (split_nl generic_doc)) = []
   \<and> fst (cargo_main (Some ''f'') \<lparr>files = [''f'' \<mapsto> generic_doc], out = [], err = []\<rparr>) = 0
   \<and> err (snd (cargo_main (Some ''f'') \<lparr>files = [''f'' \<mapsto> generic_doc], out = [], err = []\<rparr>))
       = [''Warning: No workspace members found in f'']
   \<and> fst (librs_main (Some ''f'') \<lparr>files = [''f'' \<mapsto> generic_doc], out = [], err = []\<rparr>) = 0
   \<and> err (snd (librs_main (Some ''f'') \<lparr>files = [''f'' \<mapsto> generic_doc], out = [], err = []\<rparr>)) = []"
proof -
  let ?w = "\<lparr>files = [''f'' \<mapsto> generic_doc], out = [], err = []\<rparr>"
  have f: "files ?w ''f'' = Some generic_doc" by simp
  show ?thesis
    using no_entries_warning [OF f generic_doc_facts(1)] generic_doc_facts by simp
qed

text \<open>
  C7 as stated fails for the declaration tool: on the example it prints one line,
  \<^verbatim>\<open>Resolved lib.rs\<close>, and no warning on either stream.
\<close>

theorem librs_no_warning_counterexample:
  "contains ''<<<<<<< '' generic_doc
   \<and> all_pub_mods (scan_lines (split_nl generic_doc)) = []
   \<and> out (snd (librs_main (Some ''lib.rs'') \<lparr>files = [''lib.rs'' \<mapsto> generic_doc], out = [], err = []\<rparr>))
       = [''Resolved lib.rs'']
   \<and> err (snd (librs_main (Some ''lib.rs'') \<lparr>files = [''lib.rs'' \<mapsto> generic_doc], out = [], err = []\<rparr>))
       = []"
  by code_simp

section \<open>Marker elimination\<close>

text \<open>
  C2. The manifest tool leaves a conflict region without a separator line as it is: both
  removal passes require the separator. On the three lines below the text written is the
  input, and its first and last lines are marker lines.
\<close>

theorem cargo_markers_left:
  "cargo_resolved (lines_text [''<<<<<<< HEAD'', ''fn a() {}'', ''>>>>>>> other''])
     = Inr (lines_text [''<<<<<<< HEAD'', ''fn a() {}'', ''>>>>>>> other''])
   \<and> list_ex marker_line (split_nl (lines_text [''<<<<<<< HEAD'', ''fn a() {}'', ''>>>>>>> other'']))"
  by code_simp

section \<open>Every members literal is rewritten\<close>

text \<open>
  C10. The manifest tool hands the merged block to \<^verbatim>\<open>re.sub\<close> as a replacement string,
  which reads backslashes as escapes. On the example the one member has two backslashes
  between \<^verbatim>\<open>a\<close> and \<^verbatim>\<open>b\<close>: the merged block and the report on the output stream
  have both, and the text written in the place of the two literals has the member with
  one.
\<close>

theorem backslash_member_rewritten:
  "sorted_members_of backslash_doc = [''a'' @ [BS, BS] @ ''b'']
   \<and> new_members_block (sorted_members_of backslash_doc)
     = ''members = ['' @ [NL] @ ''    '' @ [DQ] @ ''a'' @ [BS, BS] @ ''b'' @ [DQ] @ '','' @ [NL] @ '']''
   \<and> fst (cargo_main (Some ''Cargo.toml'') \<lparr>files = [''Cargo.toml'' \<mapsto> backslash_doc], out = [], err = []\<rparr>) = 0
   \<and> out (snd (cargo_main (Some ''Cargo.toml'') \<lparr>files = [''Cargo.toml'' \<mapsto> backslash_doc], out = [], err = []\<rparr>))
     = [''Resolved Cargo.toml'', ''  Merged 1 workspace members:'', ''    - a'' @ [BS, BS] @ ''b'']
   \<and> files (snd (cargo_main (Some ''Cargo.toml'') \<lparr>files = [''Cargo.toml'' \<mapsto> backslash_doc], out = [], err = []\<rparr>))
        ''Cargo.toml''
     = Some (lines_text [''members = ['', ''    '' @ [DQ] @ ''a'' @ [BS] @ ''b'' @ [DQ] @ '','', '']'', ''x'',
                         ''default-members = ['', ''    '' @ [DQ] @ ''a'' @ [BS] @ ''b'' @ [DQ] @ '','', '']''])"
  by code_simp

section \<open>Preservation of the lines outside the conflicts\<close>


lemma scenario_b_outside:
  "filter (\<lambda>l. l \<noteq> []) (outside_lines (split_nl scenario_b_doc)) = [''use a;'', ''fn main() {}'']"
  "split_nl (librs_resolved scenario_b_doc)
     = [''use a;'', ''pub mod alpha;'', ''pub mod zeta;'', ''fn main() {}'', '''']"
  by code_simp+

text \<open>A manifest with one conflict about the package name.\<close>

lemma keep_ours_example:
  "(\<forall>l \<in> set [''[package]''] \<union> set [''edition = 1'']. manifest_line l)
   \<and> (\<forall>l \<in> set [''name = 1''] \<union> set [''name = 2'']. side_line l)
   \<and> [''name = 1''] \<noteq> [] \<and> (\<forall>l \<in> set [''name = 1'']. \<not> suffix ''======='' l)
   \<and> NL \<notin> set '' HEAD'' \<and> \<not> contains ''members'' (''<<<<<<<'' @ '' HEAD'')
   \<and> manifest_line (''>>>>>>>'' @ '' other'')"
  "region_doc [''[package]''] '' HEAD'' [''name = 1''] [''name = 2''] '' other'' [''edition = 1'']
   = lines_text [''[package]'', ''<<<<<<< HEAD'', ''name = 1'', ''======='', ''name = 2'',
                 ''>>>>>>> other'', ''edition = 1'']"
  "collapse_blank (lines_text ([''[package]''] @ [''name = 1''] @ [''edition = 1'']))
   = lines_text [''[package]'', ''name = 1'', ''edition = 1'']"
  "filter (\<lambda>l. l \<noteq> []) ([''[package]''] @ [''edition = 1'']) = [''[package]'', ''edition = 1'']"
  by code_simp+



section \<open>Completeness of the merged entries\<close>

text \<open>
  C1. The manifest tool merges the members of both sides and then writes them nowhere
  when the text left by the removal passes has neither a members literal nor a
  \<^verbatim>\<open>[workspace]\<close> header: on a file that is one members conflict, with \<^verbatim>\<open>a\<close> on the
  side of "ours" and \<^verbatim>\<open>b\<close> on the side of "theirs", it reports two merged members,
  exits with code 0 and writes the empty text. With the header before the conflict
  (Scenario A) the merged block is written after the header.
\<close>

theorem merged_members_lost:
  "map (\<lambda>cs. (extract_members_from_block (grp 1 cs), extract_members_from_block (grp 2 cs)))
       (rx_finditer conflict_pattern members_only_doc) = [({''a''}, {''b''})]
   \<and> fst (cargo_main (Some ''Cargo.toml'') \<lparr>files = [''Cargo.toml'' \<mapsto> members_only_doc], out = [], err = []\<rparr>) = 0
   \<and> out (snd (cargo_main (Some ''Cargo.toml'') \<lparr>files = [''Cargo.toml'' \<mapsto> members_only_doc], out = [], err = []\<rparr>))
     = [''Resolved Cargo.toml'', ''  Merged 2 workspace members:'', ''    - a'', ''    - b'']
   \<and> files (snd (cargo_main (Some ''Cargo.toml'') \<lparr>files = [''Cargo.toml'' \<mapsto> members_only_doc], out = [], err = []\<rparr>))
        ''Cargo.toml'' = Some []
   \<and> files (snd (cargo_main (Some ''Cargo.toml'') \<lparr>files = [''Cargo.toml'' \<mapsto> scenario_a_doc], out = [], err = []\<rparr>))
        ''Cargo.toml''
     = Some (lines_text [''[workspace]'', ''members = ['', ''    '' @ [DQ] @ ''a'' @ [DQ] @ '','',
                         ''    '' @ [DQ] @ ''b'' @ [DQ] @ '','', ''    '' @ [DQ] @ ''c'' @ [DQ] @ '','', '']''])"
  by code_simp

section \<open>Conflict regions without entries\<close>


lemma generic_doc_region:
  "split_nl generic_doc = [] @ [''<<<<<<< HEAD''] @ [''fn a() {}''] @ [''=======''] @ [''fn b() {}'']
                          @ [''>>>>>>> other''] @ ['''']
   \<and> split_nl (lines_text [''<<<<<<< HEAD'', ''>>>>>>> other'']) = [] @ [''<<<<<<< HEAD'', ''>>>>>>> other''] @ ['''']
   \<and> prefix ''<<<<<<< '' ''<<<<<<< HEAD'' \<and> prefix ''======='' ''=======''
   \<and> prefix ''>>>>>>> '' ''>>>>>>> other''
   \<and> (\<forall>l \<in> set [''fn a() {}'']. \<not> marker_line l)
   \<and> (\<forall>l \<in> set [''fn b() {}'']. \<not> marker_line l)
   \<and> extract_pub_mods (lines_text [''fn a() {}'']) = []
   \<and> extract_pub_mods (lines_text [''fn b() {}'']) = []"
  by code_simp



section \<open>Running a tool again\<close>

text \<open>
  C4 (as amended). On a file that does not contain the text of a start marker
  (\<^verbatim>\<open><<<<<<< \<close> with its space) either tool writes nothing and exits with code 0.
  Running the declaration tool twice leaves the file as one run leaves it, for every
  file whose collected declarations have pairwise different module names (with equal
  names the order of the written declarations follows the iteration order of a Python
  set, which the model fixes).
\<close>

theorem run_twice:
  "(files w p = Some c \<and> \<not> contains ''<<<<<<< '' c \<longrightarrow>
       librs_main (Some p) w = (0, print_out (''No conflict markers found in '' @ p) w)
     \<and> cargo_main (Some p) w = (0, print_out (''No conflict markers found in '' @ p) w))
   \<and> ((\<forall>c. files w (librs_parse_args arg) = Some c \<longrightarrow>
            distinct (map extract_mod_name (all_pub_mods (scan_lines (split_nl c))))) \<longrightarrow>
       files (snd (librs_main arg (snd (librs_main arg w)))) = files (snd (librs_main arg w)))"
proof (intro conjI impI)
  assume "files w p = Some c \<and> \<not> contains ''<<<<<<< '' c"
  then show "librs_main (Some p) w = (0, print_out (''No conflict markers found in '' @ p) w)"
    and "cargo_main (Some p) w = (0, print_out (''No conflict markers found in '' @ p) w)"
    by (simp_all add: librs_main_def cargo_main_def librs_parse_args_def cargo_parse_args_def
          resolve_librs_conflict_def resolve_cargo_conflict_def)
next
  let ?p = "librs_parse_args arg"
  show "files (snd (librs_main arg (snd (librs_main arg w)))) = files (snd (librs_main arg w))"
  proof (cases "files w ?p")
    case None
    then show ?thesis
      by (simp add: librs_main_def resolve_librs_conflict_def)
  next
    case (Some c)
    show ?thesis
    proof (cases "contains ''<<<<<<< '' c")
      case False
      then show ?thesis using Some
        by (simp add: librs_main_def resolve_librs_conflict_def)
    next
      case True
      let ?w1 = "snd (librs_main arg w)"
      have f1: "files ?w1 = (files w)(?p \<mapsto> librs_resolved c)"
        using Some True by (simp add: librs_main_def resolve_librs_conflict_def Let_def)
      then have g: "files ?w1 ?p = Some (librs_resolved c)" by simp
      show ?thesis
      proof (cases "contains ''<<<<<<< '' (librs_resolved c)")
        case False
        then show ?thesis using g
          by (simp add: librs_main_def [of arg ?w1] resolve_librs_conflict_def [of ?p ?w1])
      next
        case True
        then have "files (snd (librs_main arg ?w1)) = (files ?w1)(?p \<mapsto> librs_resolved (librs_resolved c))"
          using g by (simp add: librs_main_def [of arg ?w1] resolve_librs_conflict_def [of ?p ?w1] Let_def)
        then show ?thesis using f1 by (simp add: librs_idempotent)
      qed
    qed
  qed
qed

lemma midline_run:
  "files (snd (librs_main (Some ''f'') \<lparr>files = [''f'' \<mapsto> midline_doc], out = [], err = []\<rparr>)) ''f''
   = Some (lines_text [''// see <<<<<<< markers'', ''pub mod a;'', ''pub mod b;'', ''fn f() {}''])"
  "contains ''<<<<<<< '' (lines_text [''// see <<<<<<< markers'', ''pub mod a;'', ''pub mod b;'', ''fn f() {}''])"
  "distinct (map extract_mod_name (all_pub_mods (scan_lines (split_nl midline_doc))))"
  "\<not> contains ''<<<<<<< '' ''fn f() {}''"
  by code_simp+

text \<open>
  A file without the marker text for the first part; for the second a file whose first
  result still holds the marker text in a comment, so that the second run rewrites it.
\<close>

theorem run_twice_witness:
  "\<not> contains ''<<<<<<< '' ''fn f() {}''
   \<and> fst (librs_main (Some ''f'') \<lparr>files = [''f'' \<mapsto> ''fn f() {}''], out = [], err = []\<rparr>) = 0
   \<and> fst (cargo_main (Some ''f'') \<lparr>files = [''f'' \<mapsto> ''fn f() {}''], out = [], err = []\<rparr>) = 0
   \<and> distinct (map extract_mod_name (all_pub_mods (scan_lines (split_nl midline_doc))))
   \<and> files (snd (librs_main (Some ''f'')
               (snd (librs_main (Some ''f'') \<lparr>files = [''f'' \<mapsto> midline_doc], out = [], err = []\<rparr>)))) ''f''
     = Some (lines_text [''// see <<<<<<< markers'', ''pub mod a;'', ''pub mod b;'', ''fn f() {}''])"
proof -
  let ?u = "\<lparr>files = [''f'' \<mapsto> ''fn f() {}''], out = [], err = []\<rparr>"
  let ?w = "\<lparr>files = [''f'' \<mapsto> midline_doc], out = [], err = []\<rparr>"
  have a: "files ?u ''f'' = Some ''fn f() {}'' \<and> \<not> contains ''<<<<<<< '' ''fn f() {}''"
    using midline_run(4) by simp
  have b: "\<forall>c. files ?w (librs_parse_args (Some ''f'')) = Some c \<longrightarrow>
            distinct (map extract_mod_name (all_pub_mods (scan_lines (split_nl c))))"
    using midline_run(3) by (simp add: librs_parse_args_def)
  have "fst (librs_main (Some ''f'') ?u) = 0" "fst (cargo_main (Some ''f'') ?u) = 0"
    using run_twice [of ?u "''f''" "''fn f() {}''" "None"] a by simp_all
  moreover have "files (snd (librs_main (Some ''f'') (snd (librs_main (Some ''f'') ?w))))
                 = files (snd (librs_main (Some ''f'') ?w))"
    using run_twice [of ?w "''f''" "''x''" "Some ''f''"] b by blast
  ultimately show ?thesis using midline_run by simp
qed

text \<open>
  C4 as stated fails. The declaration tool rewrites a one-line file that has no marker
  line but holds the marker text in the middle of the line: a newline is added. The
  manifest tool, on nested markers, leaves a conflict that a second run resolves.
\<close>

theorem run_twice_counterexample:
  "\<not> list_ex marker_line (split_nl ''x <<<<<<< y'')
   \<and> files (snd (librs_main (Some ''f'') \<lparr>files = [''f'' \<mapsto> ''x <<<<<<< y''], out = [], err = []\<rparr>)) ''f''
     = Some (''x <<<<<<< y'' @ [NL])
   \<and> cargo_resolved nested_doc
     = Inr (lines_text [''<<<<<<< c'', ''foo'', ''======='', ''bar'', ''>>>>>>> d''])
   \<and> contains ''<<<<<<< '' (lines_text [''<<<<<<< c'', ''foo'', ''======='', ''bar'', ''>>>>>>> d''])
   \<and> cargo_resolved (lines_text [''<<<<<<< c'', ''foo'', ''======='', ''bar'', ''>>>>>>> d''])
     = Inr (lines_text [''foo''])"
  by code_simp

end
